theory Spec2Isabelle
  imports Complex_Main "HOL-Library.Word"
begin

unbundle bit_operations_syntax

section \<open>Machine integers\<close>

text \<open>
  \<^verbatim>\<open>uint64_t\<close> values (keys, card ids, counters) are 64-bit words: addition wraps,
  \<^verbatim>\<open>(int64_t)x\<close> is read with \<open>sint\<close>. Table sizes and indices (\<^verbatim>\<open>size_t\<close>) are
  natural numbers: a table of capacity \<open>c\<close> occupies \<open>24 * c\<close> bytes, so no size
  computation of the code reaches \<open>2 ^ 64\<close>.
\<close>

type_synonym u64 = "64 word"
type_synonym u32 = "32 word"

section \<open>hash.c: the counting store\<close>

text \<open>
  A \<^verbatim>\<open>HashEntry\<close> holds \<^verbatim>\<open>key\<close>, \<^verbatim>\<open>n\<close> and \<^verbatim>\<open>w\<close>; the fields are named
  \<open>e_key\<close>, \<open>e_n\<close>, \<open>e_w\<close> here, single letters being variables in the theorems.
  A \<^verbatim>\<open>HashMap\<close> is the array \<^verbatim>\<open>entries\<close> (a list, indexed from 0) with the fields
  \<^verbatim>\<open>capacity\<close>, \<^verbatim>\<open>size\<close> (named \<open>hsize\<close>) and \<^verbatim>\<open>tombstones\<close>. A pointer to an entry
  of the array is the entry's index; \<^verbatim>\<open>NULL\<close> is \<open>None\<close>.
\<close>

record HashEntry =
  e_key :: u64
  e_n :: u64
  e_w :: u64

record HashMap =
  entries :: "HashEntry list"
  capacity :: nat
  hsize :: nat
  tombstones :: nat

definition HASH_EMPTY_KEY :: u64 where
  "HASH_EMPTY_KEY = 0xFFFFFFFFFFFFFFFF"

definition HASH_TOMBSTONE :: u64 where
  "HASH_TOMBSTONE = 0xFFFFFFFFFFFFFFFF - 1"

text \<open>FNV-1a over the eight bytes of the key, least significant byte first.\<close>

definition hash_u64 :: "u64 \<Rightarrow> u64" where
  "hash_u64 k =
     fold (\<lambda>i h. (h XOR (drop_bit (i * 8) k AND 0xFF)) * 1099511628211)
       [0..<8] 14695981039346656037"

text \<open>
  \<^verbatim>\<open>calloc\<close> can fail. The allocator is a parameter \<open>alloc\<close> of every function that
  allocates: \<open>alloc c\<close> says whether an array of \<open>c\<close> entries can be had.

  The abnormal ends of a call are values of \<open>fault\<close>: \<open>NullDeref\<close> is the write
  through a \<^verbatim>\<open>NULL\<close> entry in \<^verbatim>\<open>hashmap_resize\<close>, \<open>OutOfFuel\<close> is the end of the
  recursion budget of the model of \<^verbatim>\<open>hashmap_put\<close> (see below).
\<close>

datatype fault = NullDeref | OutOfFuel

definition empty_entry :: HashEntry where
  "empty_entry = \<lparr>e_key = HASH_EMPTY_KEY, e_n = 0, e_w = 0\<rparr>"

text \<open>
  \<^verbatim>\<open>hashmap_init\<close>: the capacity is 16 doubled until it reaches the requested one
  (the \<^verbatim>\<open>while\<close> loop, which need not end for a start of 0, is a partial
  function); the fresh array holds the empty key in every slot. The result is
  \<open>None\<close> for the \<^verbatim>\<open>-1\<close> of a failed allocation.
\<close>

partial_function (option) init_cap_loop :: "nat \<Rightarrow> nat \<Rightarrow> nat option" where
  "init_cap_loop cap initial_capacity =
     (if cap < initial_capacity then init_cap_loop (cap * 2) initial_capacity
      else Some cap)"

declare init_cap_loop.simps [code]

definition hashmap_init :: "(nat \<Rightarrow> bool) \<Rightarrow> nat \<Rightarrow> HashMap option option" where
  "hashmap_init alloc initial_capacity =
     (case init_cap_loop 16 initial_capacity of
        None \<Rightarrow> None
      | Some cap \<Rightarrow>
          Some (if \<not> alloc cap then None
                else Some \<lparr>entries = replicate cap empty_entry, capacity = cap,
                            hsize = 0, tombstones = 0\<rparr>))"

text \<open>
  The probe loop of \<^verbatim>\<open>hashmap_get\<close>, from step \<open>i\<close>: slot \<open>(idx + i) & mask\<close> is
  read; the search ends at the key or at an empty slot and goes on over anything else.
\<close>

function get_probe :: "HashMap \<Rightarrow> u64 \<Rightarrow> nat \<Rightarrow> nat \<Rightarrow> nat option" where
  "get_probe m k idx i =
     (if i < capacity m then
        (let probe = (idx + i) AND (capacity m - 1);
             entry = entries m ! probe
         in if e_key entry = k then Some probe
            else if e_key entry = HASH_EMPTY_KEY then None
            else get_probe m k idx (i + 1))
      else None)"
  by pat_completeness auto
termination
  by (relation "measure (\<lambda>(m, k, idx, i). capacity m - i)") auto

declare get_probe.simps [simp del]

definition hashmap_get :: "HashMap \<Rightarrow> u64 \<Rightarrow> nat option" where
  "hashmap_get m k =
     (if k = HASH_EMPTY_KEY \<or> k = HASH_TOMBSTONE then None
      else get_probe m k (unat (hash_u64 k) AND (capacity m - 1)) 0)"

text \<open>
  The probe loop of \<^verbatim>\<open>hashmap_put\<close>. \<open>ft\<close> is \<^verbatim>\<open>first_tombstone\<close>, \<open>None\<close> for
  \<^verbatim>\<open>SIZE_MAX\<close>. The result is the map and the entry returned.
\<close>

function put_probe ::
  "HashMap \<Rightarrow> u64 \<Rightarrow> nat \<Rightarrow> nat \<Rightarrow> nat option \<Rightarrow> HashMap \<times> nat option" where
  "put_probe m k idx i ft =
     (if i < capacity m then
        (let probe = (idx + i) AND (capacity m - 1);
             entry = entries m ! probe
         in if e_key entry = k then (m, Some probe)
            else
              (let ft' = (if e_key entry = HASH_TOMBSTONE \<and> ft = None then Some probe
                          else ft)
               in if e_key entry = HASH_EMPTY_KEY then
                    (case ft' of
                       Some t \<Rightarrow>
                         (m\<lparr>entries := (entries m)[t := \<lparr>e_key = k, e_n = 0, e_w = 0\<rparr>],
                            tombstones := tombstones m - 1,
                            hsize := hsize m + 1\<rparr>, Some t)
                     | None \<Rightarrow>
                         (m\<lparr>entries := (entries m)[probe := \<lparr>e_key = k, e_n = 0, e_w = 0\<rparr>],
                            hsize := hsize m + 1\<rparr>, Some probe))
                  else put_probe m k idx (i + 1) ft'))
      else (m, None))"
  by pat_completeness auto
termination
  by (relation "measure (\<lambda>(m, k, idx, i, ft). capacity m - i)") auto

declare put_probe.simps [simp del]

text \<open>
  The reinsertion loop of \<^verbatim>\<open>hashmap_resize\<close> over the old array: each live entry is
  put into the new map and its counts are copied into the entry returned. \<open>put\<close> is
  the \<^verbatim>\<open>hashmap_put\<close> that the loop calls.
\<close>

fun reinsert ::
  "(HashMap \<Rightarrow> u64 \<Rightarrow> fault + HashMap \<times> nat option) \<Rightarrow> HashEntry list \<Rightarrow> HashMap
     \<Rightarrow> fault + HashMap" where
  "reinsert put [] m = Inr m"
| "reinsert put (old # olds) m =
     (if e_key old \<noteq> HASH_EMPTY_KEY \<and> e_key old \<noteq> HASH_TOMBSTONE then
        (case put m (e_key old) of
           Inl f \<Rightarrow> Inl f
         | Inr (m', None) \<Rightarrow> Inl NullDeref
         | Inr (m', Some j) \<Rightarrow>
             reinsert put olds
               (m'\<lparr>entries := (entries m')[j := (entries m' ! j)\<lparr>e_n := e_n old, e_w := e_w old\<rparr>]\<rparr>))
      else reinsert put olds m)"

text \<open>
  \<^verbatim>\<open>hashmap_resize\<close> returns the map and its \<^verbatim>\<open>int\<close> result: \<open>-1\<close> with the map as
  it was when the allocation fails, \<open>0\<close> with the rehashed map of twice the capacity.
\<close>

definition hashmap_resize ::
  "(HashMap \<Rightarrow> u64 \<Rightarrow> fault + HashMap \<times> nat option) \<Rightarrow> (nat \<Rightarrow> bool) \<Rightarrow> HashMap
     \<Rightarrow> fault + HashMap \<times> int" where
  "hashmap_resize put alloc m =
     (let old_cap = capacity m;
          old_entries = entries m;
          new_cap = old_cap * 2
      in if \<not> alloc new_cap then Inr (m, - 1)
         else
           (case reinsert put (take old_cap old_entries)
                   \<lparr>entries = replicate new_cap empty_entry, capacity = new_cap,
                      hsize = 0, tombstones = 0\<rparr> of
              Inl f \<Rightarrow> Inl f
            | Inr m' \<Rightarrow> Inr (m', 0)))"

text \<open>
  \<^verbatim>\<open>hashmap_put\<close> and \<^verbatim>\<open>hashmap_resize\<close> call each other. The model counts the depth
  of that recursion: \<open>hashmap_put_d d\<close> may nest \<open>d\<close> calls of \<^verbatim>\<open>hashmap_put\<close> and
  ends in \<open>OutOfFuel\<close> below that. A put into the table that a resize has just
  allocated never resizes again, so depth 2 is all the code uses
  (lemma \<open>hashmap_put_fuel\<close>); \<open>hashmap_put\<close> is \<open>hashmap_put_d 2\<close>.
\<close>

primrec hashmap_put_d ::
  "nat \<Rightarrow> (nat \<Rightarrow> bool) \<Rightarrow> HashMap \<Rightarrow> u64 \<Rightarrow> fault + HashMap \<times> nat option" where
  "hashmap_put_d 0 alloc m k = Inl OutOfFuel"
| "hashmap_put_d (Suc d) alloc m k =
     (if k = HASH_EMPTY_KEY \<or> k = HASH_TOMBSTONE then Inr (m, None)
      else if (hsize m + tombstones m) * 10 > capacity m * 7 then
        (case hashmap_resize (hashmap_put_d d alloc) alloc m of
           Inl f \<Rightarrow> Inl f
         | Inr (m', rc) \<Rightarrow>
             if rc \<noteq> 0 then Inr (m', None)
             else Inr (put_probe m' k (unat (hash_u64 k) AND (capacity m' - 1)) 0 None))
      else Inr (put_probe m k (unat (hash_u64 k) AND (capacity m - 1)) 0 None))"

declare hashmap_put_d.simps [simp del]

definition hashmap_put ::
  "(nat \<Rightarrow> bool) \<Rightarrow> HashMap \<Rightarrow> u64 \<Rightarrow> fault + HashMap \<times> nat option" where
  "hashmap_put = hashmap_put_d 2"

text \<open>\<^verbatim>\<open>hashmap_increment\<close>: nothing happens when \<^verbatim>\<open>hashmap_put\<close> returns \<^verbatim>\<open>NULL\<close>.\<close>

definition hashmap_increment ::
  "(nat \<Rightarrow> bool) \<Rightarrow> HashMap \<Rightarrow> u64 \<Rightarrow> bool \<Rightarrow> fault + HashMap" where
  "hashmap_increment alloc m k win =
     (case hashmap_put alloc m k of
        Inl f \<Rightarrow> Inl f
      | Inr (m', None) \<Rightarrow> Inr m'
      | Inr (m', Some j) \<Rightarrow>
          Inr (m'\<lparr>entries := (entries m')
                 [j := (entries m' ! j)
                    \<lparr>e_n := e_n (entries m' ! j) + 1,
                     e_w := (if win then e_w (entries m' ! j) + 1
                             else e_w (entries m' ! j))\<rparr>]\<rparr>))"

subsection \<open>Well-formed tables and their contents\<close>

text \<open>
  \<open>hm_inv\<close> holds of every table that \<^verbatim>\<open>hashmap_init\<close> makes and is kept by
  \<^verbatim>\<open>hashmap_put\<close> and \<^verbatim>\<open>hashmap_increment\<close> (lemmas \<open>hm_inv_init\<close>, \<open>hashmap_put_spec\<close>,
  \<open>hashmap_increment_spec\<close>): the capacity is a power of two, at least 16, and the length
  of the array; no slot holds a tombstone (the code has no delete); \<open>hsize\<close> counts the
  live slots and leaves one slot empty; and every live slot is where the lookup of its
  key ends. \<open>hm_lookup\<close> is the table read as a partial map from keys to \<open>(n, w)\<close>.
\<close>

definition valid_key :: "u64 \<Rightarrow> bool" where
  "valid_key k \<longleftrightarrow> k \<noteq> HASH_EMPTY_KEY \<and> k \<noteq> HASH_TOMBSTONE"

definition live :: "HashEntry \<Rightarrow> bool" where
  "live e \<longleftrightarrow> valid_key (e_key e)"

definition hm_inv :: "HashMap \<Rightarrow> bool" where
  "hm_inv m \<longleftrightarrow>
     (\<exists>j. 4 \<le> j \<and> capacity m = 2 ^ j) \<and>
     length (entries m) = capacity m \<and>
     tombstones m = 0 \<and>
     (\<forall>e \<in> set (entries m). e_key e \<noteq> HASH_TOMBSTONE) \<and>
     hsize m = length (filter live (entries m)) \<and>
     hsize m < capacity m \<and>
     (\<forall>p < capacity m. live (entries m ! p) \<longrightarrow>
        hashmap_get m (e_key (entries m ! p)) = Some p)"

definition hm_lookup :: "HashMap \<Rightarrow> u64 \<Rightarrow> (u64 \<times> u64) option" where
  "hm_lookup m k =
     (case hashmap_get m k of
        None \<Rightarrow> None
      | Some p \<Rightarrow> Some (e_n (entries m ! p), e_w (entries m ! p)))"

text \<open>
  \<open>copy_entry\<close> is what reinserting one entry of the old array does to the contents;
  \<open>grows_ok\<close> says that the allocation of the next \<^verbatim>\<open>hashmap_put\<close>, if it makes one,
  succeeds.
\<close>

definition copy_entry :: "HashEntry \<Rightarrow> (u64 \<rightharpoonup> u64 \<times> u64) \<Rightarrow> (u64 \<rightharpoonup> u64 \<times> u64)" where
  "copy_entry e f = (if live e then f(e_key e \<mapsto> (e_n e, e_w e)) else f)"

definition grows_ok :: "(nat \<Rightarrow> bool) \<Rightarrow> HashMap \<Rightarrow> bool" where
  "grows_ok alloc m \<longleftrightarrow>
     (if (hsize m + tombstones m) * 10 > capacity m * 7 then alloc (capacity m * 2) else True)"

section \<open>hash.c: pair keys\<close>

text \<open>
  \<^verbatim>\<open>pair_key\<close> swaps its arguments so that \<open>a \<le> b\<close>, truncates both to 32 bits
  and packs the first into the high half. \<^verbatim>\<open>pair_decode\<close> writes the two halves
  through its out-parameters; the model returns them as a pair.
\<close>

definition pair_key :: "u64 \<Rightarrow> u64 \<Rightarrow> u64" where
  "pair_key a b =
     (let (a, b) = (if a > b then (b, a) else (a, b));
          a32 = (ucast (a AND 0xFFFFFFFF) :: u32);
          b32 = (ucast (b AND 0xFFFFFFFF) :: u32)
      in push_bit 32 (ucast a32 :: u64) OR (ucast b32 :: u64))"

definition pair_decode :: "u64 \<Rightarrow> u64 \<times> u64" where
  "pair_decode k = (drop_bit 32 k AND 0xFFFFFFFF, k AND 0xFFFFFFFF)"

text \<open>
  Sequences of calls on one table: \<^verbatim>\<open>hashmap_put\<close> (the entry returned is not
  written to) and \<^verbatim>\<open>hashmap_increment\<close>.
\<close>

datatype hm_op = Put u64 | Increment u64 bool

fun run_op :: "(nat \<Rightarrow> bool) \<Rightarrow> hm_op \<Rightarrow> HashMap \<Rightarrow> fault + HashMap" where
  "run_op alloc (Put k) m =
     (case hashmap_put alloc m k of Inl f \<Rightarrow> Inl f | Inr (m', r) \<Rightarrow> Inr m')"
| "run_op alloc (Increment k win) m = hashmap_increment alloc m k win"

fun run_ops :: "(nat \<Rightarrow> bool) \<Rightarrow> hm_op list \<Rightarrow> HashMap \<Rightarrow> fault + HashMap" where
  "run_ops alloc [] m = Inr m"
| "run_ops alloc (x # xs) m =
     (case run_op alloc x m of Inl f \<Rightarrow> Inl f | Inr m' \<Rightarrow> run_ops alloc xs m')"

section \<open>labels.c: aggregation and labels\<close>

text \<open>
  The \<^verbatim>\<open>LabelContext\<close> without its \<^verbatim>\<open>carddb\<close> pointer, which the functions below
  do not read.
\<close>

record LabelContext =
  total_games :: u64
  total_wins :: u64
  card_stats :: HashMap
  pair_stats :: HashMap

definition MIN_BOTH_PRESENT :: u64 where
  "MIN_BOTH_PRESENT = 500"

definition MAX_GAME_CARDS :: nat where
  "MAX_GAME_CARDS = 100"

text \<open>\<^verbatim>\<open>labels_init\<close>: \<open>Some None\<close> is the \<^verbatim>\<open>-1\<close> of a failed allocation.\<close>

definition labels_init :: "(nat \<Rightarrow> bool) \<Rightarrow> LabelContext option option" where
  "labels_init alloc =
     (case hashmap_init alloc 4096 of
        None \<Rightarrow> None
      | Some None \<Rightarrow> Some None
      | Some (Some cs) \<Rightarrow>
          (case hashmap_init alloc 65536 of
             None \<Rightarrow> None
           | Some None \<Rightarrow> Some None
           | Some (Some ps) \<Rightarrow>
               Some (Some \<lparr>total_games = 0, total_wins = 0,
                            card_stats = cs, pair_stats = ps\<rparr>)))"

text \<open>
  The first loop of \<^verbatim>\<open>labels_process_game\<close>: \<open>unique\<close> collects the ids in the order
  of their first occurrence and the loop stops once it holds \<^verbatim>\<open>MAX_GAME_CARDS\<close> ids.
\<close>

fun dedup_loop :: "u64 list \<Rightarrow> u64 list \<Rightarrow> u64 list" where
  "dedup_loop [] unique = unique"
| "dedup_loop (c # cs) unique =
     (if length unique < MAX_GAME_CARDS
      then dedup_loop cs (if c \<in> set unique then unique else unique @ [c])
      else unique)"

text \<open>A loop of \<^verbatim>\<open>hashmap_increment\<close> calls over a list of keys.\<close>

fun incr_all :: "(nat \<Rightarrow> bool) \<Rightarrow> HashMap \<Rightarrow> u64 list \<Rightarrow> bool \<Rightarrow> fault + HashMap" where
  "incr_all alloc m [] win = Inr m"
| "incr_all alloc m (k # ks) win =
     (case hashmap_increment alloc m k win of
        Inl f \<Rightarrow> Inl f
      | Inr m' \<Rightarrow> incr_all alloc m' ks win)"

text \<open>The keys of the nested pair loop, \<open>i < j\<close>, in the order the loop makes them.\<close>

fun pair_keys :: "u64 list \<Rightarrow> u64 list" where
  "pair_keys [] = []"
| "pair_keys (a # rest) = map (pair_key a) rest @ pair_keys rest"

text \<open>
  \<^verbatim>\<open>labels_process_game\<close>: \<open>present_cards\<close> is the array of \<^verbatim>\<open>count\<close> ids, \<open>win\<close> the
  flag as a truth value.
\<close>

definition labels_process_game ::
  "(nat \<Rightarrow> bool) \<Rightarrow> LabelContext \<Rightarrow> u64 list \<Rightarrow> bool \<Rightarrow> fault + LabelContext" where
  "labels_process_game alloc ctx present_cards win =
     (let ctx1 = ctx\<lparr>total_games := total_games ctx + 1,
                      total_wins := (if win then total_wins ctx + 1 else total_wins ctx)\<rparr>
      in if present_cards = [] then Inr ctx1
         else
           (let unique = dedup_loop present_cards []
            in case incr_all alloc (card_stats ctx1) unique win of
                 Inl f \<Rightarrow> Inl f
               | Inr cs \<Rightarrow>
                   (case incr_all alloc (pair_stats ctx1) (pair_keys unique) win of
                      Inl f \<Rightarrow> Inl f
                    | Inr ps \<Rightarrow> Inr (ctx1\<lparr>card_stats := cs, pair_stats := ps\<rparr>))))"

subsection \<open>Arithmetic on \<^verbatim>\<open>double\<close>\<close>

text \<open>
  A \<^verbatim>\<open>double\<close> is modelled by the real number it holds, and every operation on doubles
  by the exact operation on the reals followed by the rounding of IEEE 754 binary64: to
  the nearest number with a significand of 53 bits, a tie going to the even significand,
  each operation rounded on its own (no wider intermediate format, as on x86-64 and
  AArch64). Below \<open>2 ^ -1022\<close> the spacing of the doubles stays that of the lowest
  binade. No operation of this program overflows or divides by zero: the operands are
  counts up to \<open>2 ^ 64\<close>, sums of such a count with 1 and 2, quotients of two such sums,
  and sums and differences of four such quotients.

  \<open>bit_count n\<close> is the number of binary digits of \<open>n\<close>; \<open>ilog2 x\<close> is, for \<open>x > 0\<close>, the
  exponent \<open>e\<close> with \<open>2 ^ e \<le> x < 2 ^ (e + 1)\<close>; \<open>round_even r\<close> is the integer nearest to
  \<open>r\<close>, the even one of the two when \<open>r\<close> lies half way; \<open>round_double x\<close> is the double
  nearest to \<open>x\<close>.
\<close>

fun bit_count :: "nat \<Rightarrow> nat" where
  "bit_count n = (if n = 0 then 0 else Suc (bit_count (n div 2)))"

declare bit_count.simps [simp del]

definition ilog2 :: "real \<Rightarrow> int" where
  "ilog2 x = (if 1 \<le> x then int (bit_count (nat \<lfloor>x\<rfloor>)) - 1
              else - int (bit_count (nat \<lceil>1 / x\<rceil> - 1)))"

definition round_even :: "real \<Rightarrow> int" where
  "round_even r =
     (let f = \<lfloor>r\<rfloor>; d = r - of_int f
      in if d < 1 / 2 then f
         else if 1 / 2 < d then f + 1
         else if even f then f else f + 1)"

definition round_double :: "real \<Rightarrow> real" where
  "round_double x =
     (if x = 0 then 0
      else
        (let u = 2 powi (max (ilog2 \<bar>x\<bar>) (- 1022) - 52)
         in sgn x * of_int (round_even (\<bar>x\<bar> / u)) * u))"

text \<open>
  The conversion of a \<^verbatim>\<open>uint64_t\<close> to \<^verbatim>\<open>double\<close>, and the sum, the difference and the
  quotient of two doubles.
\<close>

definition double_of_u64 :: "u64 \<Rightarrow> real" where
  "double_of_u64 n = round_double (real (unat n))"

definition dadd :: "real \<Rightarrow> real \<Rightarrow> real" where
  "dadd x y = round_double (x + y)"

definition dsub :: "real \<Rightarrow> real \<Rightarrow> real" where
  "dsub x y = round_double (x - y)"

definition ddiv :: "real \<Rightarrow> real \<Rightarrow> real" where
  "ddiv x y = round_double (x / y)"

text \<open>
  \<^verbatim>\<open>labels_smooth_prob\<close>, with \<^verbatim>\<open>BETA_ALPHA\<close> and \<^verbatim>\<open>BETA_BETA\<close> both the double 1.0: in
  \<^verbatim>\<open>wins + BETA_ALPHA\<close> the count is converted to \<^verbatim>\<open>double\<close> and the sum is a sum of
  doubles, and so for the two sums of the denominator, from left to right.
\<close>

definition labels_smooth_prob :: "u64 \<Rightarrow> u64 \<Rightarrow> real" where
  "labels_smooth_prob wins games =
     ddiv (dadd (double_of_u64 wins) 1) (dadd (dadd (double_of_u64 games) 1) 1)"

record LabelRecord =
  card_a :: u64
  card_b :: u64
  n11 :: u64
  w11 :: u64
  n10 :: u64
  w10 :: u64
  n01 :: u64
  w01 :: u64
  n00 :: u64
  w00 :: u64
  p11 :: real
  p10 :: real
  p01 :: real
  p00 :: real
  syn_delta :: real

text \<open>
  The \<^verbatim>\<open>-1\<close> results of \<^verbatim>\<open>labels_compute_pair\<close>, told apart by the place of the
  \<^verbatim>\<open>return\<close>: a lookup that finds nothing, the threshold, and the three checks that
  print a message.
\<close>

datatype label_error =
  NotFound | BelowThreshold | InvalidWinCounts | NegativeBuckets | TotalsMismatch

text \<open>
  \<^verbatim>\<open>labels_compute_pair\<close> returns the context, which it only reads, and either the
  error or the record it has filled. The \<^verbatim>\<open>int64_t\<close> buckets are 64-bit words read with
  \<open>sint\<close>; their subtractions wrap, as two's complement hardware does.
\<close>

definition labels_compute_pair ::
  "LabelContext \<Rightarrow> u64 \<Rightarrow> u64 \<Rightarrow> LabelContext \<times> (label_error + LabelRecord)" where
  "labels_compute_pair ctx a b =
     (ctx,
      case hashmap_get (card_stats ctx) a of
        None \<Rightarrow> Inl NotFound
      | Some ia \<Rightarrow>
     (let n_a = e_n (entries (card_stats ctx) ! ia);
          w_a = e_w (entries (card_stats ctx) ! ia)
      in case hashmap_get (card_stats ctx) b of
        None \<Rightarrow> Inl NotFound
      | Some ib \<Rightarrow>
     (let n_b = e_n (entries (card_stats ctx) ! ib);
          w_b = e_w (entries (card_stats ctx) ! ib);
          pk = pair_key a b
      in case hashmap_get (pair_stats ctx) pk of
        None \<Rightarrow> Inl NotFound
      | Some iab \<Rightarrow>
     (let n_ab = e_n (entries (pair_stats ctx) ! iab);
          w_ab = e_w (entries (pair_stats ctx) ! iab)
      in if n_ab < MIN_BOTH_PRESENT then Inl BelowThreshold
         else
     (let N = total_games ctx;
          W = total_wins ctx
      in if W > N \<or> w_a > n_a \<or> w_b > n_b \<or> w_ab > n_ab then Inl InvalidWinCounts
         else
     (let n10' = n_a - n_ab;
          n01' = n_b - n_ab;
          n00' = N - n_a - n_b + n_ab;
          w10' = w_a - w_ab;
          w01' = w_b - w_ab;
          w00' = W - w_a - w_b + w_ab
      in if sint n10' < 0 \<or> sint n01' < 0 \<or> sint n00' < 0 \<or>
            sint w10' < 0 \<or> sint w01' < 0 \<or> sint w00' < 0
         then Inl NegativeBuckets
         else if n_ab + n10' + n01' + n00' \<noteq> N \<or> w_ab + w10' + w01' + w00' \<noteq> W
         then Inl TotalsMismatch
         else
     (let q11 = labels_smooth_prob w_ab n_ab;
          q10 = labels_smooth_prob w10' n10';
          q01 = labels_smooth_prob w01' n01';
          q00 = labels_smooth_prob w00' n00'
      in Inr \<lparr>card_a = a, card_b = b,
               n11 = n_ab, w11 = w_ab, n10 = n10', w10 = w10',
               n01 = n01', w01 = w01', n00 = n00', w00 = w00',
               p11 = q11, p10 = q10, p01 = q01, p00 = q00,
               syn_delta = dadd (dsub (dsub q11 q10) q01) q00\<rparr>)))))))"

text \<open>
  \<open>bump c win\<close> is what \<open>c\<close> increments do to the counts of one key: nothing to a
  key that is not there when \<open>c = 0\<close>.
\<close>

definition bump :: "nat \<Rightarrow> bool \<Rightarrow> (u64 \<times> u64) option \<Rightarrow> (u64 \<times> u64) option" where
  "bump c win v =
     (case v of
        None \<Rightarrow> if c = 0 then None else Some (of_nat c, if win then of_nat c else 0)
      | Some (x, y) \<Rightarrow> Some (x + of_nat c, if win then y + of_nat c else y))"

text \<open>
  Two contexts with the numbers of the specification's scenario, in tables of capacity
  16. In \<open>scenario_ctx\<close> cards 1, 2 and 3 were seen in 600, 550 and 400 of 1000 games,
  the pair (1, 2) in 510 games and the pair (1, 3) in 100. In \<open>scenario_bad_ctx\<close> card 1
  was seen in 500 games, card 2 in 400, and the pair in 510.
\<close>

definition scenario_ctx :: LabelContext where
  "scenario_ctx =
     \<lparr>total_games = 1000, total_wins = 600,
      card_stats =
        \<lparr>entries = (replicate 16 empty_entry)
           [4 := \<lparr>e_key = 1, e_n = 600, e_w = 360\<rparr>,
            7 := \<lparr>e_key = 2, e_n = 550, e_w = 350\<rparr>,
            6 := \<lparr>e_key = 3, e_n = 400, e_w = 250\<rparr>],
         capacity = 16, hsize = 3, tombstones = 0\<rparr>,
      pair_stats =
        \<lparr>entries = (replicate 16 empty_entry)
           [6 := \<lparr>e_key = 4294967298, e_n = 510, e_w = 340\<rparr>,
            7 := \<lparr>e_key = 4294967299, e_n = 100, e_w = 60\<rparr>],
         capacity = 16, hsize = 2, tombstones = 0\<rparr>\<rparr>"

definition scenario_bad_ctx :: LabelContext where
  "scenario_bad_ctx =
     \<lparr>total_games = 1000, total_wins = 600,
      card_stats =
        \<lparr>entries = (replicate 16 empty_entry)
           [4 := \<lparr>e_key = 1, e_n = 500, e_w = 300\<rparr>,
            7 := \<lparr>e_key = 2, e_n = 400, e_w = 250\<rparr>],
         capacity = 16, hsize = 2, tombstones = 0\<rparr>,
      pair_stats =
        \<lparr>entries = (replicate 16 empty_entry)
           [6 := \<lparr>e_key = 4294967298, e_n = 510, e_w = 340\<rparr>],
         capacity = 16, hsize = 1, tombstones = 0\<rparr>\<rparr>"

text \<open>The record that \<^verbatim>\<open>labels_compute_pair\<close> fills for cards 1 and 2 of \<open>scenario_ctx\<close>.\<close>

definition scenario_record :: LabelRecord where
  "scenario_record =
     \<lparr>card_a = 1, card_b = 2,
      n11 = 510, w11 = 340, n10 = 90, w10 = 20,
      n01 = 40, w01 = 10, n00 = 360, w00 = 230,
      p11 = labels_smooth_prob 340 510, p10 = labels_smooth_prob 20 90,
      p01 = labels_smooth_prob 10 40, p00 = labels_smooth_prob 230 360,
      syn_delta =
        dadd (dsub (dsub (labels_smooth_prob 340 510) (labels_smooth_prob 20 90))
                (labels_smooth_prob 10 40))
          (labels_smooth_prob 230 360)\<rparr>"

text \<open>
  Tables and allocators for the examples: the table that \<^verbatim>\<open>hashmap_init\<close> makes for a
  capacity of 16; that table after twelve puts, which is at the load where the next put
  grows it; an allocator that never fails and one that has no more than 16 entries to
  give.
\<close>

definition table16 :: HashMap where
  "table16 = \<lparr>entries = replicate 16 empty_entry, capacity = 16, hsize = 0, tombstones = 0\<rparr>"

definition twelve_puts :: "hm_op list" where
  "twelve_puts =
     [Put 1, Put 2, Put 3, Put 4, Put 5, Put 6, Put 7, Put 8, Put 9, Put 10, Put 11, Put 12]"

definition key_entry :: "u64 \<Rightarrow> HashEntry" where
  "key_entry k = \<lparr>e_key = k, e_n = 0, e_w = 0\<rparr>"

definition table12 :: HashMap where
  "table12 =
     \<lparr>entries =
        [key_entry 5, key_entry 4, key_entry 7, key_entry 6, key_entry 1, empty_entry,
         key_entry 3, key_entry 2, empty_entry, key_entry 12, empty_entry, empty_entry,
         key_entry 9, key_entry 8, key_entry 11, key_entry 10],
      capacity = 16, hsize = 12, tombstones = 0\<rparr>"

definition any_alloc :: "nat \<Rightarrow> bool" where
  "any_alloc c \<longleftrightarrow> True"

definition small_alloc :: "nat \<Rightarrow> bool" where
  "small_alloc c \<longleftrightarrow> c \<le> 16"

text \<open>The number of increments after which a 64-bit counter that stands at 1 is 0 again.\<close>

definition wrap_count :: nat where
  "wrap_count = 2 ^ 64 - 1"

text \<open>
  The unordered pairs of distinct ids of a set, each as the ordered pair with the smaller
  id first, that \<^verbatim>\<open>pair_key\<close> sends to the key \<open>p\<close>.
\<close>

definition pairs_with_key :: "u64 set \<Rightarrow> u64 \<Rightarrow> (u64 \<times> u64) set" where
  "pairs_with_key S p = {(x, y). x \<in> S \<and> y \<in> S \<and> x < y \<and> pair_key x y = p}"

text \<open>
  The distinct ids of a list, each at the place of its first occurrence.
\<close>

function first_distinct :: "u64 list \<Rightarrow> u64 list" where
  "first_distinct [] = []"
| "first_distinct (c # cs) = c # first_distinct (removeAll c cs)"
  by pat_completeness auto
termination
  by (relation "measure length") (simp_all add: less_Suc_eq_le length_removeAll_less_eq)

text \<open>
  The context that \<^verbatim>\<open>labels_init\<close> makes, a context with two small empty tables, and
  a game with the 101 distinct ids 1, ..., 101.
\<close>

definition fresh_ctx :: LabelContext where
  "fresh_ctx =
     \<lparr>total_games = 0, total_wins = 0,
      card_stats = \<lparr>entries = replicate 4096 empty_entry, capacity = 4096,
                      hsize = 0, tombstones = 0\<rparr>,
      pair_stats = \<lparr>entries = replicate 65536 empty_entry, capacity = 65536,
                      hsize = 0, tombstones = 0\<rparr>\<rparr>"

definition small_ctx :: LabelContext where
  "small_ctx = \<lparr>total_games = 0, total_wins = 0, card_stats = table16, pair_stats = table16\<rparr>"

definition ids_1_to_101 :: "u64 list" where
  "ids_1_to_101 = map of_nat [1..<102]"

section \<open>train.c: the embedding model and its file\<close>

text \<open>
  A \<^verbatim>\<open>float\<close> is the 32-bit word of its bits, which is what \<^verbatim>\<open>fwrite\<close> and \<^verbatim>\<open>fread\<close>
  copy; \<open>0\<close> is \<^verbatim>\<open>0.0f\<close>. The arithmetic on floats is not interpreted: addition and
  multiplication are parameters \<open>fadd\<close> and \<open>fmul\<close> of \<^verbatim>\<open>model_predict\<close>.

  A \<^verbatim>\<open>CardModel\<close> holds its \<^verbatim>\<open>embedding\<close> array as a list (of \<^verbatim>\<open>EMBED_DIM\<close> floats).
  A \<^verbatim>\<open>SynergyModel\<close> holds as \<open>cards\<close> the used part \<^verbatim>\<open>cards[0 .. num_cards)\<close> of
  its array, so that \<^verbatim>\<open>num_cards\<close> is \<open>length (cards m)\<close>; \<^verbatim>\<open>capacity\<close> is the field
  \<open>model_capacity\<close>. \<^verbatim>\<open>embed_dim\<close> is a C \<^verbatim>\<open>int\<close>.
\<close>

type_synonym f32 = "32 word"
type_synonym byte = "8 word"

definition EMBED_DIM :: nat where
  "EMBED_DIM = 16"

definition MODEL_MAGIC :: u32 where
  "MODEL_MAGIC = 0x53594E31"

definition MODEL_VERSION :: u32 where
  "MODEL_VERSION = 1"

record CardModel =
  card_id :: u64
  bias :: f32
  embedding :: "f32 list"

record SynergyModel =
  cards :: "CardModel list"
  model_capacity :: nat
  global_bias :: f32
  embed_dim :: int

definition model_find_card :: "SynergyModel \<Rightarrow> u64 \<Rightarrow> CardModel option" where
  "model_find_card m cid = find (\<lambda>c. card_id c = cid) (cards m)"

text \<open>
  \<^verbatim>\<open>model_predict\<close>: the global bias when a card is missing, else the dot product over
  the first \<^verbatim>\<open>embed_dim\<close> coordinates, accumulated from \<^verbatim>\<open>0.0f\<close>, plus the two biases
  and the global bias, added from left to right.
\<close>

definition model_predict ::
  "(f32 \<Rightarrow> f32 \<Rightarrow> f32) \<Rightarrow> (f32 \<Rightarrow> f32 \<Rightarrow> f32) \<Rightarrow> SynergyModel \<Rightarrow> u64 \<Rightarrow> u64 \<Rightarrow> f32" where
  "model_predict fadd fmul m a b =
     (case model_find_card m a of
        None \<Rightarrow> global_bias m
      | Some ma \<Rightarrow>
          (case model_find_card m b of
             None \<Rightarrow> global_bias m
           | Some mb \<Rightarrow>
               (let dot = fold (\<lambda>i d. fadd d (fmul (embedding ma ! i) (embedding mb ! i)))
                            [0..<nat (embed_dim m)] 0
                in fadd (fadd (fadd dot (bias ma)) (bias mb)) (global_bias m))))"

text \<open>
  The file is a list of bytes. \<open>le_bytes n x\<close> are the \<open>n\<close> bytes of the object \<open>x\<close>,
  least significant first, as \<^verbatim>\<open>fwrite\<close> writes them on a little-endian machine;
  \<open>le_word\<close> reads them back. \<open>fread_word n\<close> is an \<^verbatim>\<open>fread\<close> of one object of \<open>n\<close>
  bytes, which fails when the file ends before; the rest of the file is returned with
  the object. \<open>fread_floats d\<close> is the \<^verbatim>\<open>fread\<close> of \<open>d\<close> floats.
\<close>

fun le_bytes :: "nat \<Rightarrow> 'a::len word \<Rightarrow> byte list" where
  "le_bytes 0 x = []"
| "le_bytes (Suc n) x = ucast x # le_bytes n (drop_bit 8 x)"

fun le_word :: "byte list \<Rightarrow> 'a::len word" where
  "le_word [] = 0"
| "le_word (b # bs) = ucast b OR push_bit 8 (le_word bs)"

definition fread_word :: "nat \<Rightarrow> byte list \<Rightarrow> ('a::len word \<times> byte list) option" where
  "fread_word n bs =
     (if length bs < n then None else Some (le_word (take n bs), drop n bs))"

fun fread_floats :: "nat \<Rightarrow> byte list \<Rightarrow> (f32 list \<times> byte list) option" where
  "fread_floats 0 bs = Some ([], bs)"
| "fread_floats (Suc d) bs =
     (case fread_word 4 bs of
        None \<Rightarrow> None
      | Some (x, bs') \<Rightarrow>
          (case fread_floats d bs' of
             None \<Rightarrow> None
           | Some (xs, bs'') \<Rightarrow> Some (x # xs, bs'')))"

text \<open>
  \<^verbatim>\<open>model_save\<close>: \<open>None\<close> is the \<^verbatim>\<open>-1\<close> when the file cannot be created (\<open>can_open\<close> is
  false); else the function returns 0 and \<open>Some\<close> holds the bytes of the file. The code
  writes the header, for each card its id, its bias and the first \<^verbatim>\<open>dim\<close> floats of its
  embedding, and the global bias; the card count is cast to 32 bits. The code looks
  neither at what \<^verbatim>\<open>fwrite\<close> returns nor at what \<^verbatim>\<open>fclose\<close> returns, so a write may fail
  unnoticed: \<open>wr i bs\<close> is what is in the file, in the end, of the bytes \<open>bs\<close> that the
  call number \<open>i\<close> of \<^verbatim>\<open>fwrite\<close> is given (the calls are counted from 0); it is \<open>bs\<close>
  when the write succeeds. \<open>save_cards\<close> is the loop over the cards, \<open>i\<close> the number of
  the next call.
\<close>

fun save_cards ::
  "(nat \<Rightarrow> byte list \<Rightarrow> byte list) \<Rightarrow> u32 \<Rightarrow> nat \<Rightarrow> CardModel list \<Rightarrow> byte list" where
  "save_cards wr dm i [] = []"
| "save_cards wr dm i (c # cs) =
     wr i (le_bytes 8 (card_id c)) @
     wr (i + 1) (le_bytes 4 (bias c)) @
     wr (i + 2) (concat (map (le_bytes 4) (take (unat dm) (embedding c)))) @
     save_cards wr dm (i + 3) cs"

definition model_save ::
  "bool \<Rightarrow> (nat \<Rightarrow> byte list \<Rightarrow> byte list) \<Rightarrow> SynergyModel \<Rightarrow> byte list option" where
  "model_save can_open wr m =
     (if \<not> can_open then None
      else
        (let dm = (word_of_int (embed_dim m) :: u32);
             num_cards = (of_nat (length (cards m)) :: u32)
         in Some (wr 0 (le_bytes 4 MODEL_MAGIC) @ wr 1 (le_bytes 4 MODEL_VERSION) @
                  wr 2 (le_bytes 4 dm) @ wr 3 (le_bytes 4 num_cards) @
                  save_cards wr dm 4 (cards m) @
                  wr (4 + 3 * length (cards m)) (le_bytes 4 (global_bias m)))))"

text \<open>
  \<open>writes_ok wr k\<close>: each of the calls \<open>0, ..., k - 1\<close> of \<^verbatim>\<open>fwrite\<close> puts all its bytes
  into the file. \<^verbatim>\<open>model_save\<close> makes \<open>5 + 3 * num_cards\<close> calls.
\<close>

definition writes_ok :: "(nat \<Rightarrow> byte list \<Rightarrow> byte list) \<Rightarrow> nat \<Rightarrow> bool" where
  "writes_ok wr k \<longleftrightarrow> (\<forall>i bs. i < k \<longrightarrow> wr i bs = bs)"

text \<open>
  \<^verbatim>\<open>model_load\<close>: the file is \<open>None\<close> when it cannot be opened. The errors are the
  places where the code returns \<^verbatim>\<open>-1\<close>. The loop reads \<^verbatim>\<open>num_cards\<close> cards and sets
  the coordinates from \<^verbatim>\<open>dim\<close> on to \<^verbatim>\<open>0.0f\<close>.
\<close>

datatype load_error = CannotOpen | ShortRead | BadFormat | DimTooLarge | NoMemory

fun read_cards :: "nat \<Rightarrow> nat \<Rightarrow> byte list \<Rightarrow> (CardModel list \<times> byte list) option" where
  "read_cards dm 0 bs = Some ([], bs)"
| "read_cards dm (Suc n) bs =
     (case fread_word 8 bs of
        None \<Rightarrow> None
      | Some (cid, bs1) \<Rightarrow>
     (case fread_word 4 bs1 of
        None \<Rightarrow> None
      | Some (b, bs2) \<Rightarrow>
     (case fread_floats dm bs2 of
        None \<Rightarrow> None
      | Some (emb, bs3) \<Rightarrow>
     (case read_cards dm n bs3 of
        None \<Rightarrow> None
      | Some (cs, bs4) \<Rightarrow>
          Some (\<lparr>card_id = cid, bias = b,
                  embedding = emb @ replicate (EMBED_DIM - dm) 0\<rparr> # cs, bs4)))))"

definition model_load ::
  "(nat \<Rightarrow> bool) \<Rightarrow> byte list option \<Rightarrow> load_error + SynergyModel" where
  "model_load alloc file =
     (case file of
        None \<Rightarrow> Inl CannotOpen
      | Some bs \<Rightarrow>
     (case fread_word 4 bs of
        None \<Rightarrow> Inl ShortRead
      | Some (magic :: u32, bs1) \<Rightarrow>
     (case fread_word 4 bs1 of
        None \<Rightarrow> Inl ShortRead
      | Some (version :: u32, bs2) \<Rightarrow>
     (case fread_word 4 bs2 of
        None \<Rightarrow> Inl ShortRead
      | Some (dm :: u32, bs3) \<Rightarrow>
     (case fread_word 4 bs3 of
        None \<Rightarrow> Inl ShortRead
      | Some (num_cards :: u32, bs4) \<Rightarrow>
          if magic \<noteq> MODEL_MAGIC \<or> version \<noteq> MODEL_VERSION then Inl BadFormat
          else if unat dm > EMBED_DIM then Inl DimTooLarge
          else
            (let cap = (if unat num_cards > 1024 then unat num_cards else 1024)
             in if \<not> alloc cap then Inl NoMemory
                else
                  (case read_cards (unat dm) (unat num_cards) bs4 of
                     None \<Rightarrow> Inl ShortRead
                   | Some (cs, bs5) \<Rightarrow>
                       (case fread_word 4 bs5 of
                          None \<Rightarrow> Inl ShortRead
                        | Some (gb, bs6) \<Rightarrow>
                            Inr \<lparr>cards = cs, model_capacity = cap,
                                 global_bias = gb, embed_dim = sint dm\<rparr>))))))))"

text \<open>
  The models that the code makes and reads: \<^verbatim>\<open>embed_dim\<close> between 0 and \<^verbatim>\<open>EMBED_DIM\<close>
  (\<^verbatim>\<open>model_init\<close> sets it to \<^verbatim>\<open>EMBED_DIM\<close>, \<^verbatim>\<open>model_load\<close> to what it has checked) and
  every embedding an array of \<^verbatim>\<open>EMBED_DIM\<close> floats.
\<close>

definition wf_model :: "SynergyModel \<Rightarrow> bool" where
  "wf_model m \<longleftrightarrow>
     0 \<le> embed_dim m \<and> embed_dim m \<le> int EMBED_DIM \<and>
     list_all (\<lambda>c. length (embedding c) = EMBED_DIM) (cards m)"

text \<open>
  For the examples: stand-ins for the addition and the multiplication of floats that are
  right where an operand is \<^verbatim>\<open>+0.0\<close>, the only case the examples use; a model of two
  cards; the number of cards that no longer fits the 32-bit count of the file, and a
  model of that many cards; an allocator that always fails; writes that all succeed, and
  writes that succeed for the header and put nothing into the file from then on (the
  disk is full); the bytes of a card when its three writes succeed.
\<close>

definition sample_fadd :: "f32 \<Rightarrow> f32 \<Rightarrow> f32" where
  "sample_fadd x y = (if y = 0 then x else if x = 0 then y else x + y)"

definition sample_fmul :: "f32 \<Rightarrow> f32 \<Rightarrow> f32" where
  "sample_fmul x y = (if x = 0 \<or> y = 0 then 0 else x * y)"

definition zero_card :: "u64 \<Rightarrow> CardModel" where
  "zero_card cid = \<lparr>card_id = cid, bias = 0, embedding = replicate 16 0\<rparr>"

definition two_card_model :: SynergyModel where
  "two_card_model =
     \<lparr>cards = [zero_card 1, zero_card 2], model_capacity = 1024,
      global_bias = 0x3DCCCCCD, embed_dim = 16\<rparr>"

definition card_limit :: nat where
  "card_limit = 2 ^ 32"

definition big_model :: SynergyModel where
  "big_model =
     \<lparr>cards = replicate card_limit (zero_card 1), model_capacity = card_limit,
      global_bias = 0, embed_dim = 16\<rparr>"

definition no_alloc :: "nat \<Rightarrow> bool" where
  "no_alloc c \<longleftrightarrow> False"

definition all_written :: "nat \<Rightarrow> byte list \<Rightarrow> byte list" where
  "all_written i bs = bs"

definition disk_full :: "nat \<Rightarrow> byte list \<Rightarrow> byte list" where
  "disk_full i bs = (if i < 4 then bs else [])"

definition card_bytes :: "u32 \<Rightarrow> CardModel \<Rightarrow> byte list" where
  "card_bytes dm c =
     le_bytes 8 (card_id c) @ le_bytes 4 (bias c) @
     concat (map (le_bytes 4) (take (unat dm) (embedding c)))"

text \<open>
  What \<^verbatim>\<open>model_load\<close> makes of a saved card and of a saved model: the coordinates
  below \<^verbatim>\<open>embed_dim\<close> as they were, the others \<^verbatim>\<open>0.0f\<close>; the capacity is chosen anew.
\<close>

definition loaded_card :: "nat \<Rightarrow> CardModel \<Rightarrow> CardModel" where
  "loaded_card dm c =
     c\<lparr>embedding := take dm (embedding c) @ replicate (EMBED_DIM - dm) 0\<rparr>"

definition loaded_model :: "SynergyModel \<Rightarrow> SynergyModel" where
  "loaded_model m =
     \<lparr>cards = map (loaded_card (nat (embed_dim m))) (cards m),
      model_capacity = max (length (cards m)) 1024,
      global_bias = global_bias m, embed_dim = embed_dim m\<rparr>"

section \<open>The counting store is correct\<close>

subsection \<open>Slots and probing\<close>

lemma and_mask_nat: "(x::nat) AND (2 ^ j - 1) = x mod 2 ^ j"
proof -
  have "x AND mask j = x mod 2 ^ j"
    by (simp only: take_bit_eq_mask [symmetric] take_bit_eq_mod)
  then show ?thesis by (simp only: mask_eq_exp_minus_1)
qed

lemma and_le_right_nat: "(x::nat) AND y \<le> y"
  by (metis AND_upper2 of_nat_0_le_iff of_nat_and_eq of_nat_le_iff)

lemma slot_lt: "i < c \<Longrightarrow> (x::nat) AND (c - 1) < c"
proof -
  assume "i < c"
  have "x AND (c - 1) \<le> c - 1" by (rule and_le_right_nat)
  with \<open>i < c\<close> show ?thesis by simp
qed

lemma slot_surj:
  assumes "p < (2::nat) ^ j"
  shows "\<exists>i < 2 ^ j. (idx + i) AND (2 ^ j - 1) = p"
proof -
  let ?c = "(2::nat) ^ j"
  let ?r = "idx mod ?c"
  let ?i = "(p + ?c - ?r) mod ?c"
  have r: "?r < ?c" by simp
  have "(idx + ?i) mod ?c = (?r + (p + ?c - ?r)) mod ?c"
    by (metis mod_add_eq mod_mod_trivial)
  also have "\<dots> = (p + ?c) mod ?c"
  proof -
    have "?r + (p + ?c - ?r) = p + ?c" using r by arith
    then show ?thesis by (simp only:)
  qed
  also have "\<dots> = p" using assms by simp
  finally have "(idx + ?i) AND (?c - 1) = p" by (simp only: and_mask_nat)
  moreover have "?i < ?c" by simp
  ultimately show ?thesis by blast
qed

lemma get_probe_Some:
  "get_probe m k idx i = Some p \<Longrightarrow>
     e_key (entries m ! p) = k \<and> p < capacity m"
proof (induction m k idx i rule: get_probe.induct)
  case (1 m k idx i)
  show ?case
  proof (cases "i < capacity m")
    case False
    with "1.prems" show ?thesis by (simp add: get_probe.simps)
  next
    case True
    let ?s = "(idx + i) AND (capacity m - 1)"
    have s: "?s < capacity m" using True by (rule slot_lt)
    show ?thesis
    proof (cases "e_key (entries m ! ?s) = k")
      case True
      with "1.prems" \<open>i < capacity m\<close> s show ?thesis
        by (simp add: get_probe.simps [of m k idx i])
    next
      case False
      with "1.prems" \<open>i < capacity m\<close> 
      have ne: "e_key (entries m ! ?s) \<noteq> HASH_EMPTY_KEY" 
        and rec: "get_probe m k idx (i + 1) = Some p"
        by (auto simp: get_probe.simps [of m k idx i] Let_def split: if_splits)
      from "1.IH" [OF True refl refl False ne rec] show ?thesis .
    qed
  qed
qed

text \<open>The search sees only the keys and the capacity.\<close>

lemma get_probe_cong:
  assumes "capacity m' = capacity m"
    and "\<And>q. q < capacity m \<Longrightarrow> e_key (entries m' ! q) = e_key (entries m ! q)"
  shows "get_probe m' k idx i = get_probe m k idx i"
  using assms
proof (induction m k idx i rule: get_probe.induct)
  case (1 m k idx i)
  show ?case
  proof (cases "i < capacity m")
    case False
    with "1.prems" show ?thesis
      by (simp add: get_probe.simps [of m k idx i] get_probe.simps [of m' k idx i])
  next
    case True
    let ?s = "(idx + i) AND (capacity m - 1)"
    have s: "?s < capacity m" using True by (rule slot_lt)
    have same: "e_key (entries m' ! ?s) = e_key (entries m ! ?s)"
      using "1.prems"(2) [OF s] .
    show ?thesis
    proof (cases "e_key (entries m ! ?s) = k \<or> e_key (entries m ! ?s) = HASH_EMPTY_KEY")
      case True
      with \<open>i < capacity m\<close> same "1.prems"(1) show ?thesis
        by (auto simp: get_probe.simps [of m k idx i] get_probe.simps [of m' k idx i] Let_def)
    next
      case False
      then have a: "e_key (entries m ! ?s) \<noteq> k" and b: "e_key (entries m ! ?s) \<noteq> HASH_EMPTY_KEY"
        by auto
      have "get_probe m' k idx (i + 1) = get_probe m k idx (i + 1)"
        using "1.IH" [OF True refl refl a b "1.prems"(1)] "1.prems"(2) by blast
      with a b True same "1.prems"(1) show ?thesis
        by (simp add: get_probe.simps [of m k idx i] get_probe.simps [of m' k idx i])
    qed
  qed
qed

text \<open>Writing into an empty slot does not disturb a search that succeeded.\<close>

lemma get_probe_frame:
  assumes "get_probe m k idx i = Some p"
    and "e_key (entries m ! q) = HASH_EMPTY_KEY" and "k \<noteq> HASH_EMPTY_KEY"
    and "capacity m' = capacity m" and "entries m' = (entries m)[q := e]"
  shows "get_probe m' k idx i = Some p"
  using assms
proof (induction m k idx i rule: get_probe.induct)
  case (1 m k idx i)
  have lt: "i < capacity m"
    using "1.prems"(1) by (auto simp: get_probe.simps [of m k idx i] split: if_splits)
  let ?s = "(idx + i) AND (capacity m - 1)"
  have nE: "e_key (entries m ! ?s) \<noteq> HASH_EMPTY_KEY"
    using "1.prems"(1,3) lt
    by (auto simp: get_probe.simps [of m k idx i] Let_def split: if_splits)
  then have "?s \<noteq> q" using "1.prems"(2) by auto
  then have same: "entries m' ! ?s = entries m ! ?s"
    using "1.prems"(5) by simp
  show ?case
  proof (cases "e_key (entries m ! ?s) = k")
    case True
    with "1.prems"(1,4) lt same show ?thesis
      by (simp add: get_probe.simps [of m k idx i] get_probe.simps [of m' k idx i])
  next
    case False
    with "1.prems"(1) lt nE have rec: "get_probe m k idx (i + 1) = Some p"
      by (simp add: get_probe.simps [of m k idx i])
    have "get_probe m' k idx (i + 1) = Some p"
      using "1.IH" [OF lt refl refl False nE rec "1.prems"(2,3,4,5)] .
    with False nE lt same "1.prems"(4) show ?thesis
      by (simp add: get_probe.simps [of m k idx i] get_probe.simps [of m' k idx i])
  qed
qed

lemma empty_neq_tombstone [simp]:
  "HASH_EMPTY_KEY \<noteq> HASH_TOMBSTONE" "HASH_TOMBSTONE \<noteq> HASH_EMPTY_KEY"
  by (simp_all add: HASH_EMPTY_KEY_def HASH_TOMBSTONE_def)

lemma put_probe_found:
  "get_probe m k idx i = Some p \<Longrightarrow> put_probe m k idx i ft = (m, Some p)"
proof (induction m k idx i ft rule: put_probe.induct)
  case (1 m k idx i ft)
  have lt: "i < capacity m"
    using "1.prems" by (auto simp: get_probe.simps [of m k idx i] split: if_splits)
  let ?s = "(idx + i) AND (capacity m - 1)"
  show ?case
  proof (cases "e_key (entries m ! ?s) = k")
    case True
    with "1.prems" lt show ?thesis
      by (simp add: get_probe.simps [of m k idx i] put_probe.simps [of m k idx i])
  next
    case False
    with "1.prems" lt have nE: "e_key (entries m ! ?s) \<noteq> HASH_EMPTY_KEY"
      and rec: "get_probe m k idx (i + 1) = Some p"
      by (auto simp: get_probe.simps [of m k idx i] Let_def split: if_splits)
    have "put_probe m k idx (i + 1)
            (if e_key (entries m ! ?s) = HASH_TOMBSTONE \<and> ft = None then Some ?s else ft)
          = (m, Some p)"
      using "1.IH" [OF lt refl refl False refl nE rec] .
    with False nE lt show ?thesis
      by (auto simp: put_probe.simps [of m k idx i] Let_def split: if_splits)
  qed
qed

lemma put_probe_insert:
  assumes "get_probe m k idx i = None"
    and "\<And>q. q < capacity m \<Longrightarrow> e_key (entries m ! q) \<noteq> HASH_TOMBSTONE"
    and "length (entries m) = capacity m"
    and "i \<le> i'" and "i' < capacity m"
    and "e_key (entries m ! ((idx + i') AND (capacity m - 1))) = HASH_EMPTY_KEY"
  shows "\<exists>p < capacity m. e_key (entries m ! p) = HASH_EMPTY_KEY \<and>
           put_probe m k idx i None =
             (m\<lparr>entries := (entries m)[p := \<lparr>e_key = k, e_n = 0, e_w = 0\<rparr>],
                hsize := hsize m + 1\<rparr>, Some p) \<and>
           get_probe (m\<lparr>entries := (entries m)[p := \<lparr>e_key = k, e_n = 0, e_w = 0\<rparr>],
                hsize := hsize m + 1\<rparr>) k idx i = Some p"
  using assms(1,4)
proof (induction "i' - i" arbitrary: i)
  case 0
  then have [simp]: "i = i'" by simp
  let ?s = "(idx + i') AND (capacity m - 1)"
  let ?m' = "m\<lparr>entries := (entries m)[?s := \<lparr>e_key = k, e_n = 0, e_w = 0\<rparr>],
                hsize := hsize m + 1\<rparr>"
  have s: "?s < capacity m" using assms(5) by (rule slot_lt)
  have nk: "k \<noteq> HASH_EMPTY_KEY"
    using "0.prems"(1) assms(5,6) by (auto simp: get_probe.simps [of m k idx i'])
  have "put_probe m k idx i' None = (?m', Some ?s)"
    using assms(5,6) nk by (simp add: put_probe.simps [of m k idx i'] Let_def)
  moreover have "get_probe ?m' k idx i' = Some ?s"
    using assms(3,5) s by (subst get_probe.simps) simp
  ultimately show ?case using s assms(6) by auto
next
  case (Suc d)
  then have lt: "i < i'" by simp
  with assms(5) have ic: "i < capacity m" by simp
  let ?s = "(idx + i) AND (capacity m - 1)"
  have s: "?s < capacity m" using ic by (rule slot_lt)
  have nk: "e_key (entries m ! ?s) \<noteq> k"
    using Suc.prems(1) ic by (auto simp: get_probe.simps [of m k idx i])
  show ?case
  proof (cases "e_key (entries m ! ?s) = HASH_EMPTY_KEY")
    case True
    let ?m' = "m\<lparr>entries := (entries m)[?s := \<lparr>e_key = k, e_n = 0, e_w = 0\<rparr>],
                hsize := hsize m + 1\<rparr>"
    have "put_probe m k idx i None = (?m', Some ?s)"
      using ic True nk by (simp add: put_probe.simps [of m k idx i] Let_def)
    moreover have "get_probe ?m' k idx i = Some ?s"
      using assms(3) ic s by (subst get_probe.simps) simp
    ultimately show ?thesis using s True by auto
  next
    case False
    have nT: "e_key (entries m ! ?s) \<noteq> HASH_TOMBSTONE" using assms(2) [OF s] .
    have rec: "get_probe m k idx (i + 1) = None"
      using Suc.prems(1) ic nk False by (simp add: get_probe.simps [of m k idx i])
    have d: "d = i' - (i + 1)" using Suc.hyps(2) by simp
    from Suc.hyps(1) [OF d rec] lt
    obtain p where p: "p < capacity m" "e_key (entries m ! p) = HASH_EMPTY_KEY"
      "put_probe m k idx (i + 1) None =
         (m\<lparr>entries := (entries m)[p := \<lparr>e_key = k, e_n = 0, e_w = 0\<rparr>],
            hsize := hsize m + 1\<rparr>, Some p)"
      "get_probe (m\<lparr>entries := (entries m)[p := \<lparr>e_key = k, e_n = 0, e_w = 0\<rparr>],
            hsize := hsize m + 1\<rparr>) k idx (i + 1) = Some p"
      by auto
    let ?m' = "m\<lparr>entries := (entries m)[p := \<lparr>e_key = k, e_n = 0, e_w = 0\<rparr>],
                hsize := hsize m + 1\<rparr>"
    have "?s \<noteq> p" using p(2) False by auto
    then have same: "entries ?m' ! ?s = entries m ! ?s" by simp
    have "put_probe m k idx i None = (?m', Some p)"
      using ic nk False nT p(3) by (simp add: put_probe.simps [of m k idx i] Let_def)
    moreover have "get_probe ?m' k idx i = Some p"
      using ic nk False same p(4) by (subst get_probe.simps) simp
    ultimately show ?thesis using p(1,2) by auto
  qed
qed

lemma hm_inv_capD:
  assumes "hm_inv m"
  obtains j where "4 \<le> j" "capacity m = 2 ^ j"
  using assms unfolding hm_inv_def by blast

lemma hm_inv_cap16: "hm_inv m \<Longrightarrow> 16 \<le> capacity m"
proof -
  assume "hm_inv m"
  then obtain j where j: "4 \<le> j" "capacity m = 2 ^ j" by (rule hm_inv_capD)
  have "(2::nat) ^ 4 \<le> 2 ^ j" using j(1) by (rule power_increasing) simp
  then show ?thesis using j(2) by simp
qed

lemma hm_inv_length: "hm_inv m \<Longrightarrow> length (entries m) = capacity m"
  by (simp add: hm_inv_def)

lemma hm_inv_no_tomb:
  "hm_inv m \<Longrightarrow> q < capacity m \<Longrightarrow> e_key (entries m ! q) \<noteq> HASH_TOMBSTONE"
  by (simp add: hm_inv_def)

lemma hm_inv_liveD:
  "hm_inv m \<Longrightarrow> p < capacity m \<Longrightarrow> live (entries m ! p) \<Longrightarrow>
     hashmap_get m (e_key (entries m ! p)) = Some p"
  by (simp add: hm_inv_def)

lemma hashmap_get_SomeD:
  "hashmap_get m k = Some p \<Longrightarrow>
     p < capacity m \<and> e_key (entries m ! p) = k \<and> valid_key k"
  by (auto simp: hashmap_get_def valid_key_def dest: get_probe_Some split: if_splits)

text \<open>In a well-formed table a valid key is found exactly where it is stored.\<close>

lemma hashmap_get_Some_iff:
  assumes "hm_inv m" and "valid_key k"
  shows "hashmap_get m k = Some p \<longleftrightarrow> p < capacity m \<and> e_key (entries m ! p) = k"
proof
  assume "hashmap_get m k = Some p"
  then show "p < capacity m \<and> e_key (entries m ! p) = k"
    by (simp add: hashmap_get_SomeD)
next
  assume a: "p < capacity m \<and> e_key (entries m ! p) = k"
  with assms(2) have "live (entries m ! p)" by (simp add: live_def)
  with assms(1) a show "hashmap_get m k = Some p"
    using hm_inv_liveD by blast
qed

lemma hashmap_get_None_iff:
  assumes "hm_inv m" and "valid_key k"
  shows "hashmap_get m k = None \<longleftrightarrow> (\<forall>p < capacity m. e_key (entries m ! p) \<noteq> k)"
proof -
  have "hashmap_get m k \<noteq> None \<longleftrightarrow> (\<exists>p < capacity m. e_key (entries m ! p) = k)"
    using hashmap_get_Some_iff [OF assms] by auto
  then show ?thesis by blast
qed

lemma hashmap_get_invalid: "\<not> valid_key k \<Longrightarrow> hashmap_get m k = None"
  by (auto simp: hashmap_get_def valid_key_def)

lemma hm_lookup_invalid: "\<not> valid_key k \<Longrightarrow> hm_lookup m k = None"
  by (simp add: hm_lookup_def hashmap_get_invalid)

lemma hm_lookup_Some_iff:
  assumes "hm_inv m" and "valid_key k"
  shows "hm_lookup m k = Some v \<longleftrightarrow>
     (\<exists>p < capacity m. e_key (entries m ! p) = k \<and> v = (e_n (entries m ! p), e_w (entries m ! p)))"
proof -
  have "hm_lookup m k = Some v \<longleftrightarrow>
      (\<exists>p. hashmap_get m k = Some p \<and> v = (e_n (entries m ! p), e_w (entries m ! p)))"
    by (auto simp: hm_lookup_def split: option.splits)
  then show ?thesis
    using hashmap_get_Some_iff [OF assms] by auto
qed

lemma hm_lookup_None_iff:
  assumes "hm_inv m" and "valid_key k"
  shows "hm_lookup m k = None \<longleftrightarrow> (\<forall>p < capacity m. e_key (entries m ! p) \<noteq> k)"
  using hashmap_get_None_iff [OF assms]
  by (auto simp: hm_lookup_def split: option.splits)

text \<open>Counting the live slots of an updated array.\<close>

lemma length_filter_update:
  "p < length xs \<Longrightarrow>
     length (filter P (xs[p := y])) + (if P (xs ! p) then 1 else 0) =
     length (filter P xs) + (if P y then 1 else 0)"
proof (induction xs arbitrary: p)
  case Nil
  then show ?case by simp
next
  case (Cons x xs)
  show ?case
  proof (cases p)
    case 0
    then show ?thesis by simp
  next
    case (Suc p')
    with Cons.prems have "p' < length xs" by simp
    from Cons.IH [OF this] Suc show ?thesis by simp
  qed
qed

lemma filter_short_ex:
  assumes "length (filter P xs) < length xs"
  shows "\<exists>q < length xs. \<not> P (xs ! q)"
proof (rule ccontr)
  assume "\<not> ?thesis"
  then have "\<forall>x \<in> set xs. P x" by (auto simp: in_set_conv_nth)
  then have "filter P xs = xs" by simp
  with assms show False by simp
qed

lemma hm_inv_empty_slot:
  assumes "hm_inv m"
  shows "\<exists>q < capacity m. e_key (entries m ! q) = HASH_EMPTY_KEY"
proof -
  from assms have "length (filter live (entries m)) < length (entries m)"
    by (simp add: hm_inv_def)
  then obtain q where q: "q < length (entries m)" "\<not> live (entries m ! q)"
    using filter_short_ex by blast
  with assms have "q < capacity m" by (simp add: hm_inv_def)
  moreover from this assms have "e_key (entries m ! q) \<noteq> HASH_TOMBSTONE"
    by (rule hm_inv_no_tomb [rotated])
  with q(2) have "e_key (entries m ! q) = HASH_EMPTY_KEY"
    by (simp add: live_def valid_key_def)
  ultimately show ?thesis by blast
qed

lemma hashmap_get_valid:
  "valid_key k \<Longrightarrow>
     hashmap_get m k = get_probe m k (unat (hash_u64 k) AND (capacity m - 1)) 0"
  by (simp add: hashmap_get_def valid_key_def)

text \<open>Inserting a key that is not in the table.\<close>

lemma put_probe_fresh:
  assumes inv: "hm_inv m" and vk: "valid_key k"
    and absent: "hashmap_get m k = None"
    and room: "hsize m + 1 < capacity m"
  shows "\<exists>p < capacity m.
           put_probe m k (unat (hash_u64 k) AND (capacity m - 1)) 0 None =
             (m\<lparr>entries := (entries m)[p := \<lparr>e_key = k, e_n = 0, e_w = 0\<rparr>],
                hsize := hsize m + 1\<rparr>, Some p) \<and>
           hm_inv (m\<lparr>entries := (entries m)[p := \<lparr>e_key = k, e_n = 0, e_w = 0\<rparr>],
                hsize := hsize m + 1\<rparr>) \<and>
           hashmap_get (m\<lparr>entries := (entries m)[p := \<lparr>e_key = k, e_n = 0, e_w = 0\<rparr>],
                hsize := hsize m + 1\<rparr>) k = Some p \<and>
           hm_lookup (m\<lparr>entries := (entries m)[p := \<lparr>e_key = k, e_n = 0, e_w = 0\<rparr>],
                hsize := hsize m + 1\<rparr>) = (hm_lookup m)(k \<mapsto> (0, 0))"
proof -
  let ?idx = "unat (hash_u64 k) AND (capacity m - 1)"
  let ?new = "\<lparr>e_key = k, e_n = 0, e_w = 0\<rparr>"
  from inv obtain j where j: "4 \<le> j" "capacity m = 2 ^ j" by (rule hm_inv_capD)
  have len: "length (entries m) = capacity m" using inv by (rule hm_inv_length)
  from hm_inv_empty_slot [OF inv] obtain q where
    q: "q < capacity m" "e_key (entries m ! q) = HASH_EMPTY_KEY" by blast
  from slot_surj [of q j ?idx] q(1) j(2) obtain i' where
    i': "i' < capacity m" "(?idx + i') AND (capacity m - 1) = q" by auto
  have none: "get_probe m k ?idx 0 = None"
    using absent vk by (simp add: hashmap_get_valid)
  from put_probe_insert [OF none hm_inv_no_tomb [OF inv] len _ i'(1)] i'(2) q(2)
  obtain p where p: "p < capacity m" "e_key (entries m ! p) = HASH_EMPTY_KEY"
    "put_probe m k ?idx 0 None = (m\<lparr>entries := (entries m)[p := ?new],
                hsize := hsize m + 1\<rparr>, Some p)"
    "get_probe (m\<lparr>entries := (entries m)[p := ?new],
                hsize := hsize m + 1\<rparr>) k ?idx 0 = Some p"
    by auto
  let ?M = "m\<lparr>entries := (entries m)[p := ?new], hsize := hsize m + 1\<rparr>"
  have capM: "capacity ?M = capacity m" by simp
  have getk: "hashmap_get ?M k = Some p"
    using p(4) vk by (simp add: hashmap_get_valid)
  have live_new: "live ?new" using vk by (simp add: live_def)
  have dead_old: "\<not> live (entries m ! p)" using p(2) by (simp add: live_def valid_key_def)
  have cnt: "length (filter live ((entries m)[p := ?new])) = hsize m + 1"
  proof -
    have "p < length (entries m)" using p(1) len by simp
    from length_filter_update [OF this, of live ?new] live_new dead_old
    have "length (filter live ((entries m)[p := ?new])) = length (filter live (entries m)) + 1"
      by simp
    then show ?thesis using inv by (simp add: hm_inv_def)
  qed
  have notomb: "\<forall>e \<in> set ((entries m)[p := ?new]). e_key e \<noteq> HASH_TOMBSTONE"
  proof
    fix e assume "e \<in> set ((entries m)[p := ?new])"
    then have "e = ?new \<or> e \<in> set (entries m)"
      using set_update_subset_insert [of "entries m" p ?new] by auto
    then show "e_key e \<noteq> HASH_TOMBSTONE"
      using vk inv by (auto simp: valid_key_def hm_inv_def)
  qed
  have probing: "hashmap_get ?M (e_key (entries ?M ! p')) = Some p'"
    if p': "p' < capacity m" and lv: "live (entries ?M ! p')" for p'
  proof (cases "p' = p")
    case True
    then show ?thesis using getk p(1) len by simp
  next
    case False
    then have same: "entries ?M ! p' = entries m ! p'" by simp
    let ?k' = "e_key (entries m ! p')"
    have vk': "valid_key ?k'" using lv same by (simp add: live_def)
    have "hashmap_get m ?k' = Some p'"
      using hm_inv_liveD [OF inv p'] lv same by simp
    then have g: "get_probe m ?k' (unat (hash_u64 ?k') AND (capacity m - 1)) 0 = Some p'"
      using vk' by (simp add: hashmap_get_valid)
    have "get_probe ?M ?k' (unat (hash_u64 ?k') AND (capacity m - 1)) 0 = Some p'"
      by (rule get_probe_frame [OF g p(2)]) (use vk' in \<open>simp_all add: valid_key_def\<close>)
    then show ?thesis using vk' same by (simp add: hashmap_get_valid)
  qed
  have invM: "hm_inv ?M"
    unfolding hm_inv_def
  proof (intro conjI)
    show "\<exists>j\<ge>4. capacity ?M = 2 ^ j" using j by auto
    show "length (entries ?M) = capacity ?M" using len by simp
    show "tombstones ?M = 0" using inv by (simp add: hm_inv_def)
    show "\<forall>e \<in> set (entries ?M). e_key e \<noteq> HASH_TOMBSTONE" using notomb by simp
    show "hsize ?M = length (filter live (entries ?M))" using cnt by simp
    show "hsize ?M < capacity ?M" using room by simp
    show "\<forall>p' < capacity ?M. live (entries ?M ! p') \<longrightarrow>
            hashmap_get ?M (e_key (entries ?M ! p')) = Some p'"
      using probing by simp
  qed
  have lookup: "hm_lookup ?M = (hm_lookup m)(k \<mapsto> (0, 0))"
  proof
    fix k'
    show "hm_lookup ?M k' = ((hm_lookup m)(k \<mapsto> (0, 0))) k'"
    proof (cases "k' = k")
      case True
      then show ?thesis using getk p(1) len by (simp add: hm_lookup_def)
    next
      case nk: False
      show ?thesis
      proof (cases "valid_key k'")
        case False
        then show ?thesis using nk by (simp add: hm_lookup_invalid)
      next
        case True
        have "hashmap_get ?M k' = hashmap_get m k'"
        proof (cases "hashmap_get m k'")
          case None
          then have old: "\<forall>p' < capacity m. e_key (entries m ! p') \<noteq> k'"
            using hashmap_get_None_iff [OF inv True] by simp
          have "e_key (entries ?M ! p') \<noteq> k'" if "p' < capacity m" for p'
          proof (cases "p' = p")
            case True
            then show ?thesis using nk that len by simp
          next
            case False
            then show ?thesis using old that by simp
          qed
          then have "\<forall>p' < capacity ?M. e_key (entries ?M ! p') \<noteq> k'" by simp
          then have "hashmap_get ?M k' = None"
            using hashmap_get_None_iff [OF invM True] by simp
          with None show ?thesis by simp
        next
          case (Some p')
          then have p': "p' < capacity m" "e_key (entries m ! p') = k'"
            using hashmap_get_Some_iff [OF inv True] by auto
          with p(2) True have "p' \<noteq> p" by (auto simp: valid_key_def)
          with p' have "p' < capacity ?M \<and> e_key (entries ?M ! p') = k'" by simp
          then have "hashmap_get ?M k' = Some p'"
            using hashmap_get_Some_iff [OF invM True] by simp
          with Some show ?thesis by simp
        qed
        moreover have "entries ?M ! p' = entries m ! p'" if "hashmap_get m k' = Some p'" for p'
        proof -
          from that have "e_key (entries m ! p') = k'"
            using hashmap_get_Some_iff [OF inv True] by auto
          with p(2) True have "p' \<noteq> p" by (auto simp: valid_key_def)
          then show ?thesis by simp
        qed
        ultimately show ?thesis using nk
          by (auto simp: hm_lookup_def split: option.splits)
      qed
    qed
  qed
  from p(1,3) invM getk lookup show ?thesis by blast
qed

text \<open>Writing the counts of a live entry.\<close>

lemma set_counts:
  assumes inv: "hm_inv m" and p: "p < capacity m"
    and k: "e_key (entries m ! p) = k" and vk: "valid_key k"
    and M: "M = m\<lparr>entries := (entries m)[p := (entries m ! p)\<lparr>e_n := a, e_w := b\<rparr>]\<rparr>"
  shows "hm_inv M" and "hm_lookup M = (hm_lookup m)(k \<mapsto> (a, b))"
    and "hashmap_get M = hashmap_get m"
proof -
  let ?new = "(entries m ! p)\<lparr>e_n := a, e_w := b\<rparr>"
  have len: "length (entries m) = capacity m" using inv by (rule hm_inv_length)
  have capM: "capacity M = capacity m" by (simp add: M)
  have keys: "e_key (entries M ! q) = e_key (entries m ! q)" if "q < capacity m" for q
    using that len by (cases "q = p") (simp_all add: M)
  have lives: "live (entries M ! q) = live (entries m ! q)" if "q < capacity m" for q
    using keys [OF that] by (simp add: live_def)
  show get: "hashmap_get M = hashmap_get m"
  proof
    fix k'
    have "get_probe M k' idx 0 = get_probe m k' idx 0" for idx
      by (rule get_probe_cong [OF capM keys])
    then show "hashmap_get M k' = hashmap_get m k'"
      by (simp add: hashmap_get_def capM)
  qed
  have cnt: "length (filter live (entries M)) = length (filter live (entries m))"
  proof -
    have pl: "p < length (entries m)" using p len by simp
    have "live ?new = live (entries m ! p)" by (simp add: live_def)
    with length_filter_update [OF pl, of live ?new] show ?thesis by (simp add: M)
  qed
  have notomb: "\<forall>e \<in> set (entries M). e_key e \<noteq> HASH_TOMBSTONE"
  proof
    fix e assume "e \<in> set (entries M)"
    then have "e = ?new \<or> e \<in> set (entries m)"
      using set_update_subset_insert [of "entries m" p ?new] by (auto simp: M)
    then show "e_key e \<noteq> HASH_TOMBSTONE"
      using vk k inv by (auto simp: valid_key_def hm_inv_def)
  qed
  show invM: "hm_inv M"
    unfolding hm_inv_def
  proof (intro conjI)
    show "\<exists>j\<ge>4. capacity M = 2 ^ j" using inv by (simp add: hm_inv_def capM)
    show "length (entries M) = capacity M" using len by (simp add: M)
    show "tombstones M = 0" using inv by (simp add: hm_inv_def M)
    show "\<forall>e \<in> set (entries M). e_key e \<noteq> HASH_TOMBSTONE" by (rule notomb)
    show "hsize M = length (filter live (entries M))"
      using inv cnt by (simp add: hm_inv_def M)
    show "hsize M < capacity M" using inv by (simp add: hm_inv_def M)
    show "\<forall>q < capacity M. live (entries M ! q) \<longrightarrow>
            hashmap_get M (e_key (entries M ! q)) = Some q"
      using hm_inv_liveD [OF inv] keys lives get capM by simp
  qed
  show "hm_lookup M = (hm_lookup m)(k \<mapsto> (a, b))"
  proof
    fix k'
    show "hm_lookup M k' = ((hm_lookup m)(k \<mapsto> (a, b))) k'"
    proof (cases "k' = k")
      case True
      have "hashmap_get m k = Some p"
        using hashmap_get_Some_iff [OF inv vk] p k by simp
      then show ?thesis using True get p len by (simp add: hm_lookup_def M)
    next
      case False
      have "entries M ! q = entries m ! q" if "hashmap_get m k' = Some q" for q
      proof -
        from that have "e_key (entries m ! q) = k'" by (simp add: hashmap_get_SomeD)
        with False k have "q \<noteq> p" by auto
        then show ?thesis by (simp add: M)
      qed
      then show ?thesis using False get
        by (auto simp: hm_lookup_def split: option.splits)
    qed
  qed
qed

text \<open>The probe loop of \<^verbatim>\<open>hashmap_put\<close> on a well-formed table with room for one more key.\<close>

lemma put_probe_spec:
  assumes inv: "hm_inv m" and vk: "valid_key k" and room: "hsize m + 1 < capacity m"
  shows "\<exists>M p. put_probe m k (unat (hash_u64 k) AND (capacity m - 1)) 0 None = (M, Some p) \<and>
           hm_inv M \<and> hashmap_get M k = Some p \<and> capacity M = capacity m \<and>
           hsize M \<le> hsize m + 1 \<and>
           (hm_lookup m k \<noteq> None \<longrightarrow> M = m) \<and>
           hm_lookup M =
             (hm_lookup m)(k \<mapsto> (case hm_lookup m k of None \<Rightarrow> (0, 0) | Some v \<Rightarrow> v))"
proof (cases "hashmap_get m k")
  case None
  then have l: "hm_lookup m k = None" by (simp add: hm_lookup_def)
  from put_probe_fresh [OF inv vk None room] l show ?thesis
    by (auto simp del: fun_upd_apply)
next
  case (Some p)
  then have "get_probe m k (unat (hash_u64 k) AND (capacity m - 1)) 0 = Some p"
    using vk by (simp add: hashmap_get_valid)
  then have "put_probe m k (unat (hash_u64 k) AND (capacity m - 1)) 0 None = (m, Some p)"
    by (rule put_probe_found)
  moreover have "hm_lookup m = (hm_lookup m)(k \<mapsto> (case hm_lookup m k of None \<Rightarrow> (0, 0) | Some v \<Rightarrow> v))"
    using Some by (auto simp: hm_lookup_def)
  ultimately show ?thesis using inv Some by auto
qed

text \<open>The empty table of a fresh allocation.\<close>

lemma hm_inv_fresh:
  assumes "4 \<le> j" and "c = 2 ^ j"
  shows "hm_inv \<lparr>entries = replicate c empty_entry, capacity = c, hsize = 0, tombstones = 0\<rparr>"
proof -
  have dead: "\<not> live empty_entry" by (simp add: live_def valid_key_def empty_entry_def)
  have "filter live (replicate c empty_entry) = []" using dead by simp
  moreover have "0 < c" using assms(2) by simp
  moreover have "e_key empty_entry \<noteq> HASH_TOMBSTONE" by (simp add: empty_entry_def)
  ultimately show ?thesis
    unfolding hm_inv_def using assms dead by auto
qed

lemma hm_lookup_fresh:
  assumes "4 \<le> j" and "c = 2 ^ j"
  shows "hm_lookup \<lparr>entries = replicate c empty_entry, capacity = c, hsize = 0, tombstones = 0\<rparr>
           = Map.empty"
proof
  fix k
  let ?m = "\<lparr>entries = replicate c empty_entry, capacity = c, hsize = 0, tombstones = 0\<rparr>"
  have inv: "hm_inv ?m" using assms by (rule hm_inv_fresh)
  show "hm_lookup ?m k = None"
  proof (cases "valid_key k")
    case False
    then show ?thesis by (rule hm_lookup_invalid)
  next
    case True
    then have "\<forall>p < capacity ?m. e_key (entries ?m ! p) \<noteq> k"
      by (auto simp: empty_entry_def valid_key_def)
    then show ?thesis using hm_lookup_None_iff [OF inv True] by simp
  qed
qed

lemma fold_copy_absent:
  "(\<And>e. e \<in> set es \<Longrightarrow> live e \<Longrightarrow> e_key e \<noteq> k) \<Longrightarrow> fold copy_entry es f k = f k"
  by (induction es arbitrary: f) (auto simp: copy_entry_def)

lemma fold_copy_present:
  assumes "q < length es" and "live (es ! q)" and "e_key (es ! q) = k"
    and "\<And>q'. q' < length es \<Longrightarrow> q < q' \<Longrightarrow> live (es ! q') \<Longrightarrow> e_key (es ! q') \<noteq> k"
  shows "fold copy_entry es f k = Some (e_n (es ! q), e_w (es ! q))"
  using assms
proof (induction es arbitrary: f q)
  case Nil
  then show ?case by simp
next
  case (Cons x xs)
  show ?case
  proof (cases q)
    case 0
    have "fold copy_entry xs (copy_entry x f) k = copy_entry x f k"
    proof (rule fold_copy_absent)
      fix e assume e: "e \<in> set xs" "live e"
      then obtain i where i: "i < length xs" "xs ! i = e" by (auto simp: in_set_conv_nth)
      from Cons.prems(4) [of "Suc i"] i e 0 show "e_key e \<noteq> k" by auto
    qed
    moreover have "copy_entry x f k = Some (e_n x, e_w x)"
      using Cons.prems(2,3) 0 by (simp add: copy_entry_def)
    ultimately show ?thesis using 0 by simp
  next
    case (Suc q')
    have "fold copy_entry xs (copy_entry x f) k = Some (e_n (xs ! q'), e_w (xs ! q'))"
    proof (rule Cons.IH)
      show "q' < length xs" using Cons.prems(1) Suc by simp
      show "live (xs ! q')" using Cons.prems(2) Suc by simp
      show "e_key (xs ! q') = k" using Cons.prems(3) Suc by simp
      fix r assume "r < length xs" "q' < r" "live (xs ! r)"
      with Cons.prems(4) [of "Suc r"] Suc show "e_key (xs ! r) \<noteq> k" by simp
    qed
    with Suc show ?thesis by simp
  qed
qed

text \<open>Copying every entry of a well-formed table, in order, gives its contents.\<close>

lemma fold_copy_lookup:
  assumes inv: "hm_inv m"
  shows "fold copy_entry (entries m) Map.empty = hm_lookup m"
proof
  fix k
  have len: "length (entries m) = capacity m" using inv by (rule hm_inv_length)
  show "fold copy_entry (entries m) Map.empty k = hm_lookup m k"
  proof (cases "hm_lookup m k")
    case None
    have "e_key e \<noteq> k" if "e \<in> set (entries m)" "live e" for e
    proof
      assume ek: "e_key e = k"
      with that(2) have vk: "valid_key k" by (simp add: live_def)
      from that(1) obtain q where "q < capacity m" "entries m ! q = e"
        using len by (auto simp: in_set_conv_nth)
      with ek None hm_lookup_None_iff [OF inv vk] show False by auto
    qed
    then have "fold copy_entry (entries m) Map.empty k = Map.empty k"
      by (rule fold_copy_absent)
    with None show ?thesis by simp
  next
    case (Some v)
    then obtain p where g: "hashmap_get m k = Some p"
      and v: "v = (e_n (entries m ! p), e_w (entries m ! p))"
      by (auto simp: hm_lookup_def split: option.splits)
    from g have p: "p < capacity m" "e_key (entries m ! p) = k" "valid_key k"
      by (simp_all add: hashmap_get_SomeD)
    have "fold copy_entry (entries m) Map.empty k = Some (e_n (entries m ! p), e_w (entries m ! p))"
    proof (rule fold_copy_present)
      show "p < length (entries m)" using p(1) len by simp
      show "live (entries m ! p)" using p(2,3) by (simp add: live_def)
      show "e_key (entries m ! p) = k" by (rule p(2))
      fix q' assume q': "q' < length (entries m)" "p < q'" "live (entries m ! q')"
      show "e_key (entries m ! q') \<noteq> k"
      proof
        assume "e_key (entries m ! q') = k"
        with q'(1) len have "hashmap_get m k = Some q'"
          using hashmap_get_Some_iff [OF inv p(3)] by simp
        with g q'(2) show False by simp
      qed
    qed
    with Some v show ?thesis by simp
  qed
qed

text \<open>A put that need not grow the table: any positive depth will do.\<close>

lemma hashmap_put_d_no_resize:
  assumes inv: "hm_inv m" and vk: "valid_key k"
    and load: "(hsize m + 1) * 10 \<le> capacity m * 7"
  shows "\<exists>M p. hashmap_put_d (Suc d) alloc m k = Inr (M, Some p) \<and>
           hm_inv M \<and> hashmap_get M k = Some p \<and> capacity M = capacity m \<and>
           hsize M \<le> hsize m + 1 \<and>
           (hm_lookup m k \<noteq> None \<longrightarrow> M = m) \<and>
           hm_lookup M =
             (hm_lookup m)(k \<mapsto> (case hm_lookup m k of None \<Rightarrow> (0, 0) | Some v \<Rightarrow> v))"
proof -
  have t: "tombstones m = 0" using inv by (simp add: hm_inv_def)
  have room: "hsize m + 1 < capacity m" using load hm_inv_cap16 [OF inv] by arith
  have "hashmap_put_d (Suc d) alloc m k =
          Inr (put_probe m k (unat (hash_u64 k) AND (capacity m - 1)) 0 None)"
    using vk t load by (simp add: valid_key_def hashmap_put_d.simps)
  with put_probe_spec [OF inv vk room] show ?thesis by (auto simp del: fun_upd_apply)
qed

lemma reinsert_spec:
  assumes "hm_inv m"
    and "(hsize m + length (filter live olds)) * 10 \<le> capacity m * 7"
  shows "\<exists>M. reinsert (hashmap_put_d (Suc d) alloc) olds m = Inr M \<and>
           hm_inv M \<and> capacity M = capacity m \<and>
           hsize M \<le> hsize m + length (filter live olds) \<and>
           hm_lookup M = fold copy_entry olds (hm_lookup m)"
  using assms
proof (induction olds arbitrary: m)
  case Nil
  then show ?case by simp
next
  case (Cons old olds)
  show ?case
  proof (cases "live old")
    case False
    then have skip: "reinsert (hashmap_put_d (Suc d) alloc) (old # olds) m =
        reinsert (hashmap_put_d (Suc d) alloc) olds m"
      by (auto simp: live_def valid_key_def)
    from False Cons.prems(2)
    have "(hsize m + length (filter live olds)) * 10 \<le> capacity m * 7" by simp
    moreover have "length (filter live (old # olds)) = length (filter live olds)"
      using False by simp
    moreover have "copy_entry old (hm_lookup m) = hm_lookup m"
      using False by (simp add: copy_entry_def)
    ultimately show ?thesis using Cons.IH [OF Cons.prems(1)] skip by simp
  next
    case True
    then have vk: "valid_key (e_key old)" by (simp add: live_def)
    from True Cons.prems(2) have load1: "(hsize m + 1) * 10 \<le> capacity m * 7" by simp
    from hashmap_put_d_no_resize [OF Cons.prems(1) vk load1, of d alloc]
    obtain M1 p where M1: "hashmap_put_d (Suc d) alloc m (e_key old) = Inr (M1, Some p)"
      "hm_inv M1" "hashmap_get M1 (e_key old) = Some p" "capacity M1 = capacity m"
      "hsize M1 \<le> hsize m + 1"
      "hm_lookup M1 = (hm_lookup m)(e_key old \<mapsto>
          (case hm_lookup m (e_key old) of None \<Rightarrow> (0, 0) | Some v \<Rightarrow> v))"
      by blast
    define M2 where
      "M2 = M1\<lparr>entries := (entries M1)[p := (entries M1 ! p)\<lparr>e_n := e_n old, e_w := e_w old\<rparr>]\<rparr>"
    from M1(3) have p: "p < capacity M1" "e_key (entries M1 ! p) = e_key old"
      by (simp_all add: hashmap_get_SomeD)
    note sc = set_counts [OF M1(2) p vk M2_def]
    have l2: "hm_lookup M2 = copy_entry old (hm_lookup m)"
      using sc(2) M1(6) True by (simp add: copy_entry_def)
    have c2: "capacity M2 = capacity m" and h2: "hsize M2 \<le> hsize m + 1"
      using M1(4,5) by (simp_all add: M2_def)
    have load2: "(hsize M2 + length (filter live olds)) * 10 \<le> capacity M2 * 7"
      using Cons.prems(2) True h2 c2 by simp
    from Cons.IH [OF sc(1) load2]
    obtain M where M: "reinsert (hashmap_put_d (Suc d) alloc) olds M2 = Inr M"
      "hm_inv M" "capacity M = capacity M2"
      "hsize M \<le> hsize M2 + length (filter live olds)"
      "hm_lookup M = fold copy_entry olds (hm_lookup M2)"
      by blast
    have "reinsert (hashmap_put_d (Suc d) alloc) (old # olds) m = Inr M"
      using True M1(1) M(1) unfolding M2_def
      by (simp add: live_def valid_key_def)
    moreover have "hsize M \<le> hsize m + length (filter live (old # olds))"
      using M(4) h2 True by simp
    moreover have "hm_lookup M = fold copy_entry (old # olds) (hm_lookup m)"
      using M(5) l2 by simp
    ultimately show ?thesis using M(2,3) c2 by simp
  qed
qed

lemma hashmap_resize_spec:
  assumes inv: "hm_inv m" and al: "alloc (capacity m * 2)"
  shows "\<exists>M. hashmap_resize (hashmap_put_d (Suc d) alloc) alloc m = Inr (M, 0) \<and>
           hm_inv M \<and> capacity M = capacity m * 2 \<and> hsize M \<le> hsize m \<and>
           hm_lookup M = hm_lookup m"
proof -
  let ?c = "capacity m * 2"
  let ?m0 = "\<lparr>entries = replicate ?c empty_entry, capacity = ?c, hsize = 0, tombstones = 0\<rparr>"
  from inv obtain j where j: "4 \<le> j" "capacity m = 2 ^ j" by (rule hm_inv_capD)
  have j': "4 \<le> Suc j" "?c = 2 ^ Suc j" using j by simp_all
  have inv0: "hm_inv ?m0" using j' by (rule hm_inv_fresh)
  have l0: "hm_lookup ?m0 = Map.empty" using j' by (rule hm_lookup_fresh)
  have len: "length (entries m) = capacity m" using inv by (rule hm_inv_length)
  have hs: "hsize m = length (filter live (entries m))" "hsize m < capacity m"
    using inv by (simp_all add: hm_inv_def)
  have load: "(hsize ?m0 + length (filter live (entries m))) * 10 \<le> capacity ?m0 * 7"
    using hs by simp
  from reinsert_spec [OF inv0 load, of d alloc]
  obtain M where M: "reinsert (hashmap_put_d (Suc d) alloc) (entries m) ?m0 = Inr M"
    "hm_inv M" "capacity M = ?c" "hsize M \<le> hsize m"
    "hm_lookup M = fold copy_entry (entries m) Map.empty"
    using hs(1) l0 by auto
  have "hashmap_resize (hashmap_put_d (Suc d) alloc) alloc m = Inr (M, 0)"
    using al M(1) len by (simp add: hashmap_resize_def)
  moreover have "hm_lookup M = hm_lookup m"
    using M(5) fold_copy_lookup [OF inv] by simp
  ultimately show ?thesis using M(2,3,4) by blast
qed

lemma hashmap_put_d_invalid:
  "\<not> valid_key k \<Longrightarrow> hashmap_put_d (Suc d) alloc m k = Inr (m, None)"
  by (auto simp: valid_key_def hashmap_put_d.simps)

lemma hashmap_put_d_alloc_fails:
  assumes "valid_key k" and "(hsize m + tombstones m) * 10 > capacity m * 7"
    and "\<not> alloc (capacity m * 2)"
  shows "hashmap_put_d (Suc d) alloc m k = Inr (m, None)"
  using assms by (simp add: valid_key_def hashmap_put_d.simps hashmap_resize_def)

lemma hashmap_put_d_direct:
  assumes "\<not> (hsize m + tombstones m) * 10 > capacity m * 7"
  shows "hashmap_put_d (Suc d) alloc m k = hashmap_put_d (Suc 0) alloc m k"
  using assms by (simp add: hashmap_put_d.simps)

lemma reinsert_fuel:
  assumes "hm_inv m"
    and "(hsize m + length (filter live olds)) * 10 \<le> capacity m * 7"
  shows "reinsert (hashmap_put_d (Suc d) alloc) olds m =
         reinsert (hashmap_put_d (Suc 0) alloc) olds m"
  using assms
proof (induction olds arbitrary: m)
  case Nil
  then show ?case by simp
next
  case (Cons old olds)
  show ?case
  proof (cases "live old")
    case False
    then have "(hsize m + length (filter live olds)) * 10 \<le> capacity m * 7"
      using Cons.prems(2) by simp
    from Cons.IH [OF Cons.prems(1) this] False show ?thesis
      by (auto simp: live_def valid_key_def)
  next
    case True
    then have vk: "valid_key (e_key old)" by (simp add: live_def)
    from True Cons.prems(2) have load1: "(hsize m + 1) * 10 \<le> capacity m * 7" by simp
    have t: "tombstones m = 0" using Cons.prems(1) by (simp add: hm_inv_def)
    have same: "hashmap_put_d (Suc d) alloc m (e_key old) =
                hashmap_put_d (Suc 0) alloc m (e_key old)"
      by (rule hashmap_put_d_direct) (use load1 t in simp)
    from hashmap_put_d_no_resize [OF Cons.prems(1) vk load1, of d alloc]
    obtain M1 p where M1: "hashmap_put_d (Suc d) alloc m (e_key old) = Inr (M1, Some p)"
      "hm_inv M1" "hashmap_get M1 (e_key old) = Some p" "capacity M1 = capacity m"
      "hsize M1 \<le> hsize m + 1"
      by blast
    define M2 where
      "M2 = M1\<lparr>entries := (entries M1)[p := (entries M1 ! p)\<lparr>e_n := e_n old, e_w := e_w old\<rparr>]\<rparr>"
    from M1(3) have p: "p < capacity M1" "e_key (entries M1 ! p) = e_key old"
      by (simp_all add: hashmap_get_SomeD)
    note sc = set_counts [OF M1(2) p vk M2_def]
    have "(hsize M2 + length (filter live olds)) * 10 \<le> capacity M2 * 7"
      using Cons.prems(2) True M1(4,5) by (simp add: M2_def)
    from Cons.IH [OF sc(1) this] M1(1) same True show ?thesis
      unfolding M2_def by (simp add: live_def valid_key_def)
  qed
qed

lemma hashmap_resize_fuel:
  assumes inv: "hm_inv m"
  shows "hashmap_resize (hashmap_put_d (Suc d) alloc) alloc m =
         hashmap_resize (hashmap_put_d (Suc 0) alloc) alloc m"
proof -
  let ?c = "capacity m * 2"
  let ?m0 = "\<lparr>entries = replicate ?c empty_entry, capacity = ?c, hsize = 0, tombstones = 0\<rparr>"
  from inv obtain j where j: "4 \<le> j" "capacity m = 2 ^ j" by (rule hm_inv_capD)
  have j': "4 \<le> Suc j" "?c = 2 ^ Suc j" using j by simp_all
  have inv0: "hm_inv ?m0" using j' by (rule hm_inv_fresh)
  have len: "length (entries m) = capacity m" using inv by (rule hm_inv_length)
  have hs: "hsize m = length (filter live (entries m))" "hsize m < capacity m"
    using inv by (simp_all add: hm_inv_def)
  have load: "(hsize ?m0 + length (filter live (entries m))) * 10 \<le> capacity ?m0 * 7"
    using hs by simp
  from reinsert_fuel [OF inv0 load, of d alloc] len show ?thesis
    by (simp add: hashmap_resize_def Let_def)
qed

text \<open>Depth 2 is all that a put into a well-formed table uses.\<close>

lemma hashmap_put_fuel:
  assumes "hm_inv m"
  shows "hashmap_put_d (Suc (Suc d)) alloc m k = hashmap_put alloc m k"
  unfolding hashmap_put_def numeral_2_eq_2
  by (simp add: hashmap_put_d.simps(2) [of "Suc d"] hashmap_put_d.simps(2) [of "Suc 0"]
      hashmap_resize_fuel [OF assms, of d alloc])

text \<open>\<^verbatim>\<open>hashmap_put\<close> on a well-formed table.\<close>

lemma hashmap_put_spec:
  assumes inv: "hm_inv m" and vk: "valid_key k" and ok: "grows_ok alloc m"
  shows "\<exists>M p. hashmap_put alloc m k = Inr (M, Some p) \<and>
           hm_inv M \<and> hashmap_get M k = Some p \<and>
           (capacity M = capacity m \<or> capacity M = capacity m * 2) \<and>
           hm_lookup M =
             (hm_lookup m)(k \<mapsto> (case hm_lookup m k of None \<Rightarrow> (0, 0) | Some v \<Rightarrow> v))"
proof (cases "(hsize m + tombstones m) * 10 > capacity m * 7")
  case False
  have t: "tombstones m = 0" using inv by (simp add: hm_inv_def)
  have room: "hsize m + 1 < capacity m" using False t hm_inv_cap16 [OF inv] by arith
  have "hashmap_put alloc m k =
          Inr (put_probe m k (unat (hash_u64 k) AND (capacity m - 1)) 0 None)"
    using vk False
    by (simp add: hashmap_put_def numeral_2_eq_2 valid_key_def hashmap_put_d.simps)
  with put_probe_spec [OF inv vk room] show ?thesis by (auto simp del: fun_upd_apply)
next
  case True
  with ok have al: "alloc (capacity m * 2)" by (simp add: grows_ok_def)
  from hashmap_resize_spec [where alloc = alloc and d = 0, OF inv al]
  obtain R where R: "hashmap_resize (hashmap_put_d (Suc 0) alloc) alloc m = Inr (R, 0)"
    "hm_inv R" "capacity R = capacity m * 2" "hsize R \<le> hsize m" "hm_lookup R = hm_lookup m"
    by blast
  have "hsize m < capacity m" using inv by (simp add: hm_inv_def)
  with R(3,4) have room: "hsize R + 1 < capacity R" by simp
  have "hashmap_put alloc m k =
          Inr (put_probe R k (unat (hash_u64 k) AND (capacity R - 1)) 0 None)"
    using vk True R(1)
    by (simp add: hashmap_put_def numeral_2_eq_2 valid_key_def hashmap_put_d.simps(2) [of "Suc 0"])
  with put_probe_spec [OF R(2) vk room] R(3,5) show ?thesis
    by (auto simp del: fun_upd_apply)
qed

lemma hashmap_put_invalid: "\<not> valid_key k \<Longrightarrow> hashmap_put alloc m k = Inr (m, None)"
  by (simp add: hashmap_put_def numeral_2_eq_2 hashmap_put_d_invalid)

lemma hashmap_put_alloc_fails:
  "valid_key k \<Longrightarrow> \<not> grows_ok alloc m \<Longrightarrow> hashmap_put alloc m k = Inr (m, None)"
  by (auto simp: hashmap_put_def numeral_2_eq_2 grows_ok_def
      intro!: hashmap_put_d_alloc_fails split: if_splits)

text \<open>\<^verbatim>\<open>hashmap_increment\<close> on a well-formed table.\<close>

lemma hashmap_increment_spec:
  assumes inv: "hm_inv m" and vk: "valid_key k" and ok: "grows_ok alloc m"
  shows "\<exists>M. hashmap_increment alloc m k win = Inr M \<and> hm_inv M \<and>
           (capacity M = capacity m \<or> capacity M = capacity m * 2) \<and>
           hm_lookup M =
             (hm_lookup m)(k \<mapsto>
                (case hm_lookup m k of
                   None \<Rightarrow> (1, if win then 1 else 0)
                 | Some (a, b) \<Rightarrow> (a + 1, if win then b + 1 else b)))"
proof -
  from hashmap_put_spec [OF inv vk ok]
  obtain M1 p where M1: "hashmap_put alloc m k = Inr (M1, Some p)" "hm_inv M1"
    "hashmap_get M1 k = Some p" "capacity M1 = capacity m \<or> capacity M1 = capacity m * 2"
    "hm_lookup M1 =
       (hm_lookup m)(k \<mapsto> (case hm_lookup m k of None \<Rightarrow> (0, 0) | Some v \<Rightarrow> v))"
    by blast
  define M where "M = M1\<lparr>entries := (entries M1)
                 [p := (entries M1 ! p)
                    \<lparr>e_n := e_n (entries M1 ! p) + 1,
                     e_w := (if win then e_w (entries M1 ! p) + 1
                             else e_w (entries M1 ! p))\<rparr>]\<rparr>"
  from M1(3) have p: "p < capacity M1" "e_key (entries M1 ! p) = k"
    by (simp_all add: hashmap_get_SomeD)
  note sc = set_counts [OF M1(2) p vk M_def]
  have cur: "hm_lookup M1 k = Some (e_n (entries M1 ! p), e_w (entries M1 ! p))"
    using M1(3) by (simp add: hm_lookup_def)
  have "hashmap_increment alloc m k win = Inr M"
    using M1(1) by (simp add: hashmap_increment_def M_def)
  moreover have "capacity M = capacity M1" by (simp add: M_def)
  moreover have "hm_lookup M =
             (hm_lookup m)(k \<mapsto>
                (case hm_lookup m k of
                   None \<Rightarrow> (1, if win then 1 else 0)
                 | Some (a, b) \<Rightarrow> (a + 1, if win then b + 1 else b)))"
    using sc(2) cur M1(5) by (auto split: option.splits)
  ultimately show ?thesis using sc(1) M1(4) by (auto simp del: fun_upd_apply)
qed

lemma hashmap_increment_noop:
  "\<not> valid_key k \<or> \<not> grows_ok alloc m \<Longrightarrow> hashmap_increment alloc m k win = Inr m"
  by (cases "valid_key k")
    (auto simp: hashmap_increment_def hashmap_put_invalid hashmap_put_alloc_fails)

lemma init_cap_loop_pow:
  "\<exists>j. init_cap_loop (2 ^ i) ic = Some (2 ^ (i + j))"
proof (induction "ic - 2 ^ i" arbitrary: i rule: less_induct)
  case less
  show ?case
  proof (cases "2 ^ i < ic")
    case False
    then have "init_cap_loop (2 ^ i) ic = Some (2 ^ (i + 0))"
      by (simp add: init_cap_loop.simps)
    then show ?thesis by blast
  next
    case True
    have "(0::nat) < 2 ^ i" by simp
    moreover have "(2::nat) ^ Suc i = 2 ^ i + 2 ^ i" by simp
    ultimately have "ic - 2 ^ Suc i < ic - 2 ^ i" using True by linarith
    from less.hyps [OF this] obtain j where "init_cap_loop (2 ^ Suc i) ic = Some (2 ^ (Suc i + j))"
      by blast
    then have "init_cap_loop (2 ^ i) ic = Some (2 ^ (i + Suc j))"
      using True by (subst init_cap_loop.simps) (simp add: mult.commute)
    then show ?thesis by blast
  qed
qed

text \<open>\<^verbatim>\<open>hashmap_init\<close> returns, and what it makes is well formed and empty.\<close>

lemma hashmap_init_spec:
  "\<exists>c. hashmap_init alloc ic =
          Some (if alloc c then Some \<lparr>entries = replicate c empty_entry, capacity = c,
                            hsize = 0, tombstones = 0\<rparr> else None) \<and>
        hm_inv \<lparr>entries = replicate c empty_entry, capacity = c, hsize = 0, tombstones = 0\<rparr> \<and>
        hm_lookup \<lparr>entries = replicate c empty_entry, capacity = c, hsize = 0, tombstones = 0\<rparr>
          = Map.empty"
proof -
  from init_cap_loop_pow [of 4 ic] obtain j where
    j: "init_cap_loop 16 ic = Some (2 ^ (4 + j))" by auto
  have "4 \<le> 4 + j" by simp
  from hm_inv_fresh [OF this refl] hm_lookup_fresh [OF this refl] j show ?thesis
    by (auto simp: hashmap_init_def)
qed

lemma hm_inv_init: "hashmap_init alloc ic = Some (Some m) \<Longrightarrow> hm_inv m \<and> hm_lookup m = Map.empty"
  using hashmap_init_spec [of alloc ic] by (auto split: if_splits)

subsection \<open>Loops of increments\<close>

lemma bump_0 [simp]: "bump 0 win v = v"
  by (simp add: bump_def split: option.splits)

lemma bump_Suc:
  "bump (Suc c) win v =
     bump c win (Some (case v of None \<Rightarrow> (1, if win then 1 else 0)
                       | Some (x, y) \<Rightarrow> (x + 1, if win then y + 1 else y)))"
  by (auto simp: bump_def split: option.splits)

text \<open>
  With an allocator that never fails, a loop of increments over the keys \<open>ks\<close> adds to
  each valid key the number of its occurrences in \<open>ks\<close>, and leaves the rest alone.
\<close>

lemma incr_all_spec:
  assumes "hm_inv m" and "\<And>c. alloc c"
  shows "\<exists>M. incr_all alloc m ks win = Inr M \<and> hm_inv M \<and>
           (\<forall>k. hm_lookup M k =
              bump (if valid_key k then count_list ks k else 0) win (hm_lookup m k))"
  using assms(1)
proof (induction ks arbitrary: m)
  case Nil
  then show ?case by simp
next
  case (Cons x ks)
  have ok: "grows_ok alloc m" using assms(2) by (simp add: grows_ok_def)
  show ?case
  proof (cases "valid_key x")
    case False
    then have "hashmap_increment alloc m x win = Inr m"
      by (simp add: hashmap_increment_noop)
    moreover from Cons.IH [OF Cons.prems] obtain M where
      M: "incr_all alloc m ks win = Inr M" "hm_inv M"
      "\<forall>k. hm_lookup M k =
              bump (if valid_key k then count_list ks k else 0) win (hm_lookup m k)"
      by blast
    moreover have "(if valid_key k then count_list (x # ks) k else 0) =
        (if valid_key k then count_list ks k else 0)" for k
      using False by auto
    ultimately show ?thesis by simp
  next
    case True
    from hashmap_increment_spec [OF Cons.prems True ok, of win]
    obtain M1 where M1: "hashmap_increment alloc m x win = Inr M1" "hm_inv M1"
      "hm_lookup M1 = (hm_lookup m)(x \<mapsto>
                (case hm_lookup m x of
                   None \<Rightarrow> (1, if win then 1 else 0)
                 | Some (a, b) \<Rightarrow> (a + 1, if win then b + 1 else b)))"
      by blast
    from Cons.IH [OF M1(2)] obtain M where
      M: "incr_all alloc M1 ks win = Inr M" "hm_inv M"
      "\<forall>k. hm_lookup M k =
              bump (if valid_key k then count_list ks k else 0) win (hm_lookup M1 k)"
      by blast
    have "hm_lookup M k =
        bump (if valid_key k then count_list (x # ks) k else 0) win (hm_lookup m k)" for k
    proof (cases "k = x")
      case True
      with \<open>valid_key x\<close> M(3) M1(3) show ?thesis by (simp add: bump_Suc)
    next
      case False
      with M(3) M1(3) show ?thesis by simp
    qed
    with M(1,2) M1(1) show ?thesis by simp
  qed
qed

lemma run_ops_increments:
  "run_ops alloc (map (\<lambda>k. Increment k win) ks) m = incr_all alloc m ks win"
  by (induction ks arbitrary: m) (auto split: sum.splits)

lemma run_ops_append:
  "run_ops alloc (xs @ ys) m =
     (case run_ops alloc xs m of Inl f \<Rightarrow> Inl f | Inr m' \<Rightarrow> run_ops alloc ys m')"
  by (induction xs arbitrary: m) (auto split: sum.splits)

text \<open>A live entry of a well-formed table is what the lookup of its key returns.\<close>

lemma hm_lookup_entry:
  assumes "hm_inv m" and "e \<in> set (entries m)" and "live e"
  shows "hm_lookup m (e_key e) = Some (e_n e, e_w e)"
proof -
  from assms(1,2) obtain p where p: "p < capacity m" "entries m ! p = e"
    by (auto simp: in_set_conv_nth hm_inv_length)
  with assms(1,3) have "hashmap_get m (e_key e) = Some p"
    using hm_inv_liveD by blast
  with p show ?thesis by (simp add: hm_lookup_def)
qed

subsection \<open>Wins never exceed games before a counter wraps\<close>

lemma run_op_total:
  assumes "hm_inv m"
  shows "\<exists>M. run_op alloc x m = Inr M \<and> hm_inv M \<and>
     (\<forall>k. hm_lookup M k = hm_lookup m k \<or>
          (\<exists>win. hm_lookup M k =
              Some (case hm_lookup m k of None \<Rightarrow> (1, if win then 1 else 0)
                    | Some (a, b) \<Rightarrow> (a + 1, if win then b + 1 else b))) \<or>
          hm_lookup M k = Some (0, 0))"
proof (cases x)
  case (Put k)
  show ?thesis
  proof (cases "valid_key k \<and> grows_ok alloc m")
    case True
    from hashmap_put_spec [OF assms, of k alloc] True
    obtain M p where "hashmap_put alloc m k = Inr (M, Some p)" "hm_inv M"
      "hm_lookup M =
         (hm_lookup m)(k \<mapsto> (case hm_lookup m k of None \<Rightarrow> (0, 0) | Some v \<Rightarrow> v))"
      by blast
    then show ?thesis using Put by (auto split: option.splits)
  next
    case False
    then have "hashmap_put alloc m k = Inr (m, None)"
      using hashmap_put_invalid hashmap_put_alloc_fails by blast
    then show ?thesis using Put assms by simp
  qed
next
  case (Increment k win)
  show ?thesis
  proof (cases "valid_key k \<and> grows_ok alloc m")
    case True
    from hashmap_increment_spec [OF assms, of k alloc win] True
    obtain M where "hashmap_increment alloc m k win = Inr M" "hm_inv M"
      "hm_lookup M = (hm_lookup m)(k \<mapsto>
                (case hm_lookup m k of
                   None \<Rightarrow> (1, if win then 1 else 0)
                 | Some (a, b) \<Rightarrow> (a + 1, if win then b + 1 else b)))"
      by blast
    then show ?thesis using Increment by auto
  next
    case False
    then have "hashmap_increment alloc m k win = Inr m"
      using hashmap_increment_noop by blast
    then show ?thesis using Increment assms by simp
  qed
qed

lemma counts_step:
  fixes a b :: u64
  assumes "b \<le> a" and "unat a \<le> j" and "j < 2 ^ 64 - 1"
  shows "b \<le> a + 1" "b + 1 \<le> a + 1" "unat (a + 1) \<le> Suc j"
proof -
  have a: "unat a < 2 ^ 64 - 1" using assms(2,3) by simp
  then have ua: "unat (a + 1) = unat a + 1"
    by (simp add: unat_word_ariths)
  have ub: "unat b \<le> unat a" using assms(1) by (simp add: word_le_nat_alt)
  then have "unat (b + 1) = unat b + 1" using a by (simp add: unat_word_ariths)
  with ua ub show "b + 1 \<le> a + 1" by (simp add: word_le_nat_alt)
  from ua ub show "b \<le> a + 1" by (simp add: word_le_nat_alt)
  from ua assms(2) show "unat (a + 1) \<le> Suc j" by simp
qed

lemma run_ops_counts:
  assumes "hm_inv m"
    and "\<And>k a b. hm_lookup m k = Some (a, b) \<Longrightarrow> b \<le> a \<and> unat a \<le> j"
    and "j + length ops < 2 ^ 64"
  shows "\<exists>M. run_ops alloc ops m = Inr M \<and> hm_inv M \<and>
           (\<forall>k a b. hm_lookup M k = Some (a, b) \<longrightarrow> b \<le> a \<and> unat a \<le> j + length ops)"
  using assms
proof (induction ops arbitrary: m j)
  case Nil
  then show ?case by auto
next
  case (Cons x ops)
  from run_op_total [OF Cons.prems(1), of alloc x]
  obtain M1 where M1: "run_op alloc x m = Inr M1" "hm_inv M1"
    "\<forall>k. hm_lookup M1 k = hm_lookup m k \<or>
          (\<exists>win. hm_lookup M1 k =
              Some (case hm_lookup m k of None \<Rightarrow> (1, if win then 1 else 0)
                    | Some (a, b) \<Rightarrow> (a + 1, if win then b + 1 else b))) \<or>
          hm_lookup M1 k = Some (0, 0)"
    by blast
  have j: "j < 2 ^ 64 - 1" using Cons.prems(3) by simp
  have c1: "b \<le> a \<and> unat a \<le> Suc j" if l: "hm_lookup M1 k = Some (a, b)" for k a b
  proof -
    from M1(3) have "hm_lookup M1 k = hm_lookup m k \<or>
          (\<exists>win. hm_lookup M1 k =
              Some (case hm_lookup m k of None \<Rightarrow> (1, if win then 1 else 0)
                    | Some (a, b) \<Rightarrow> (a + 1, if win then b + 1 else b))) \<or>
          hm_lookup M1 k = Some (0, 0)" by blast
    then show ?thesis
    proof (elim disjE exE)
      assume "hm_lookup M1 k = hm_lookup m k"
      with l Cons.prems(2) [of k a b] show ?thesis by simp
    next
      fix win
      assume s: "hm_lookup M1 k =
              Some (case hm_lookup m k of None \<Rightarrow> (1, if win then 1 else 0)
                    | Some (a, b) \<Rightarrow> (a + 1, if win then b + 1 else b))"
      show ?thesis
      proof (cases "hm_lookup m k")
        case None
        with s l show ?thesis by (auto split: if_splits)
      next
        case (Some v)
        obtain a0 b0 where v: "v = (a0, b0)" by (cases v)
        from Cons.prems(2) [of k a0 b0] Some v have "b0 \<le> a0" "unat a0 \<le> j" by simp_all
        from counts_step [OF this j] s l Some v show ?thesis by (auto split: if_splits)
      qed
    next
      assume "hm_lookup M1 k = Some (0, 0)"
      with l show ?thesis by simp
    qed
  qed
  have "Suc j + length ops < 2 ^ 64" using Cons.prems(3) by simp
  from Cons.IH [OF M1(2) c1 this] M1(1) show ?case by simp
qed

section \<open>Labels for a pair\<close>

lemma hm_lookup_SomeD:
  "hm_lookup m k = Some (x, y) \<Longrightarrow>
     \<exists>i. hashmap_get m k = Some i \<and> e_n (entries m ! i) = x \<and> e_w (entries m ! i) = y"
  by (auto simp: hm_lookup_def split: option.splits)

lemma hm_lookup_None_get: "hm_lookup m k = None \<longleftrightarrow> hashmap_get m k = None"
  by (auto simp: hm_lookup_def split: option.splits)

lemma labels_compute_pair_fst: "fst (labels_compute_pair ctx a b) = ctx"
  by (simp add: labels_compute_pair_def)

lemma labels_compute_pair_absent:
  assumes "hm_lookup (card_stats ctx) a = None \<or> hm_lookup (card_stats ctx) b = None \<or>
           hm_lookup (pair_stats ctx) (pair_key a b) = None"
  shows "snd (labels_compute_pair ctx a b) = Inl NotFound"
  using assms
  by (auto simp: labels_compute_pair_def hm_lookup_None_get Let_def split: option.splits)

text \<open>With the three lookups at hand the remaining checks decide the result; the
  check of the bucket totals never fails.\<close>

lemma labels_compute_pair_found:
  assumes a: "hm_lookup (card_stats ctx) a = Some (n_a, w_a)"
    and b: "hm_lookup (card_stats ctx) b = Some (n_b, w_b)"
    and ab: "hm_lookup (pair_stats ctx) (pair_key a b) = Some (n_ab, w_ab)"
  shows "snd (labels_compute_pair ctx a b) =
     (if n_ab < MIN_BOTH_PRESENT then Inl BelowThreshold
      else if total_wins ctx > total_games ctx \<or> w_a > n_a \<or> w_b > n_b \<or> w_ab > n_ab
      then Inl InvalidWinCounts
      else if sint (n_a - n_ab) < 0 \<or> sint (n_b - n_ab) < 0 \<or>
              sint (total_games ctx - n_a - n_b + n_ab) < 0 \<or>
              sint (w_a - w_ab) < 0 \<or> sint (w_b - w_ab) < 0 \<or>
              sint (total_wins ctx - w_a - w_b + w_ab) < 0
      then Inl NegativeBuckets
      else Inr \<lparr>card_a = a, card_b = b,
               n11 = n_ab, w11 = w_ab, n10 = n_a - n_ab, w10 = w_a - w_ab,
               n01 = n_b - n_ab, w01 = w_b - w_ab,
               n00 = total_games ctx - n_a - n_b + n_ab,
               w00 = total_wins ctx - w_a - w_b + w_ab,
               p11 = labels_smooth_prob w_ab n_ab,
               p10 = labels_smooth_prob (w_a - w_ab) (n_a - n_ab),
               p01 = labels_smooth_prob (w_b - w_ab) (n_b - n_ab),
               p00 = labels_smooth_prob (total_wins ctx - w_a - w_b + w_ab)
                       (total_games ctx - n_a - n_b + n_ab),
               syn_delta =
                  dadd (dsub (dsub (labels_smooth_prob w_ab n_ab)
                                (labels_smooth_prob (w_a - w_ab) (n_a - n_ab)))
                          (labels_smooth_prob (w_b - w_ab) (n_b - n_ab)))
                    (labels_smooth_prob (total_wins ctx - w_a - w_b + w_ab)
                       (total_games ctx - n_a - n_b + n_ab))\<rparr>)"
proof -
  from hm_lookup_SomeD [OF a] obtain ia where ia: "hashmap_get (card_stats ctx) a = Some ia"
    "e_n (entries (card_stats ctx) ! ia) = n_a" "e_w (entries (card_stats ctx) ! ia) = w_a"
    by blast
  from hm_lookup_SomeD [OF b] obtain ib where ib: "hashmap_get (card_stats ctx) b = Some ib"
    "e_n (entries (card_stats ctx) ! ib) = n_b" "e_w (entries (card_stats ctx) ! ib) = w_b"
    by blast
  from hm_lookup_SomeD [OF ab] obtain iab where
    iab: "hashmap_get (pair_stats ctx) (pair_key a b) = Some iab"
    "e_n (entries (pair_stats ctx) ! iab) = n_ab" "e_w (entries (pair_stats ctx) ! iab) = w_ab"
    by blast
  have sums: "n_ab + (n_a - n_ab) + (n_b - n_ab) + (total_games ctx - n_a - n_b + n_ab)
                = total_games ctx"
    "w_ab + (w_a - w_ab) + (w_b - w_ab) + (total_wins ctx - w_a - w_b + w_ab)
                = total_wins ctx"
    by simp_all
  show ?thesis
    unfolding labels_compute_pair_def Let_def snd_conv ia iab ib option.case sums
    by simp
qed

subsection \<open>Evaluating puts on concrete tables\<close>

lemma put_probe_at_key:
  "i < capacity m \<Longrightarrow> e_key (entries m ! ((idx + i) AND (capacity m - 1))) = k \<Longrightarrow>
     put_probe m k idx i ft = (m, Some ((idx + i) AND (capacity m - 1)))"
  by (subst put_probe.simps) simp

lemma put_probe_at_empty:
  "i < capacity m \<Longrightarrow> k \<noteq> HASH_EMPTY_KEY \<Longrightarrow>
     e_key (entries m ! ((idx + i) AND (capacity m - 1))) = HASH_EMPTY_KEY \<Longrightarrow>
     put_probe m k idx i None =
       (m\<lparr>entries := (entries m)[(idx + i) AND (capacity m - 1) := \<lparr>e_key = k, e_n = 0, e_w = 0\<rparr>],
          hsize := hsize m + 1\<rparr>, Some ((idx + i) AND (capacity m - 1)))"
  by (subst put_probe.simps) (simp add: Let_def)

lemma put_probe_at_other:
  "i < capacity m \<Longrightarrow> e_key (entries m ! ((idx + i) AND (capacity m - 1))) \<noteq> k \<Longrightarrow>
     e_key (entries m ! ((idx + i) AND (capacity m - 1))) \<noteq> HASH_EMPTY_KEY \<Longrightarrow>
     e_key (entries m ! ((idx + i) AND (capacity m - 1))) \<noteq> HASH_TOMBSTONE \<Longrightarrow>
     put_probe m k idx i None = put_probe m k idx (i + 1) None"
  by (subst put_probe.simps) (simp add: Let_def)

lemma upt8: "[0..<8] = [0, 1, 2, 3, 4, 5, 6, 7]"
  by (simp add: upt_rec)

lemma hashmap_put_unfold:
  "hashmap_put alloc m k =
     (if k = HASH_EMPTY_KEY \<or> k = HASH_TOMBSTONE then Inr (m, None)
      else if (hsize m + tombstones m) * 10 > capacity m * 7 then
        (case hashmap_resize (hashmap_put_d (Suc 0) alloc) alloc m of
           Inl f \<Rightarrow> Inl f
         | Inr (m', rc) \<Rightarrow>
             if rc \<noteq> 0 then Inr (m', None)
             else Inr (put_probe m' k (unat (hash_u64 k) AND (capacity m' - 1)) 0 None))
      else Inr (put_probe m k (unat (hash_u64 k) AND (capacity m - 1)) 0 None))"
  by (simp add: hashmap_put_def numeral_2_eq_2 hashmap_put_d.simps)

lemma Suc_Suc_0: "Suc (Suc 0) = 2"
  by simp

lemmas put_eval = hashmap_put_unfold Suc_Suc_0
  put_probe_at_key put_probe_at_empty put_probe_at_other
  hash_u64_def upt8 HASH_EMPTY_KEY_def HASH_TOMBSTONE_def empty_entry_def Let_def
  key_entry_def

lemmas hm_eval = hm_lookup_def hashmap_get_def get_probe.simps hash_u64_def upt8
  HASH_EMPTY_KEY_def HASH_TOMBSTONE_def empty_entry_def Let_def


lemma replicate16: "replicate 16 x = [x, x, x, x, x, x, x, x, x, x, x, x, x, x, x, x]"
  by (simp add: numeral_eq_Suc)

lemma table12_put:
  "hashmap_put small_alloc table12 13 = Inr (table12, None)"
  by (simp add: table12_def put_eval hashmap_resize_def small_alloc_def)

lemma table16_init: "hashmap_init small_alloc 16 = Some (Some table16)"
  by (simp add: hashmap_init_def init_cap_loop.simps small_alloc_def table16_def)

lemma table12_reached: "run_ops small_alloc twelve_puts table16 = Inr table12"
  by (simp add: twelve_puts_def table16_def table12_def put_eval replicate16)

section \<open>Rounding to \<^verbatim>\<open>double\<close>\<close>

subsection \<open>The exponent of a positive number\<close>

lemma bit_count_0: "bit_count 0 = 0"
  by (simp add: bit_count.simps [of 0])

lemma bit_count_1: "bit_count (Suc 0) = Suc 0"
  by (simp add: bit_count.simps [of "Suc 0"] bit_count_0)

lemma bit_count_bounds:
  "0 < n \<Longrightarrow> 2 ^ (bit_count n - 1) \<le> n \<and> n < 2 ^ bit_count n"
proof (induction n rule: bit_count.induct)
  case (1 n)
  show ?case
  proof (cases "n div 2 = 0")
    case True
    with 1(2) have "n = 1" by (simp add: div_eq_0_iff) 
    then show ?thesis by (simp add: bit_count_1)
  next
    case False
    then have pos: "0 < n div 2" by simp
    from 1(1) [OF _ pos] 1(2)
    have ih: "2 ^ (bit_count (n div 2) - 1) \<le> n div 2" "n div 2 < 2 ^ bit_count (n div 2)"
      by simp_all
    have bc: "bit_count n = Suc (bit_count (n div 2))"
      using 1(2) by (simp add: bit_count.simps [of n])
    have bpos: "0 < bit_count (n div 2)"
      using pos by (simp add: bit_count.simps [of "n div 2"])
    then have "(2::nat) ^ bit_count (n div 2) = 2 * 2 ^ (bit_count (n div 2) - 1)"
      by (cases "bit_count (n div 2)") simp_all
    with ih show ?thesis unfolding bc by simp linarith
  qed
qed

lemma bit_count_pos: "0 < n \<Longrightarrow> 0 < bit_count n"
  by (simp add: bit_count.simps [of n])

lemma two_powi_neg: "(2::real) powi (- int j) = 1 / 2 ^ j"
  by (simp add: power_int_minus field_simps)

lemma ilog2_bounds:
  assumes "0 < x"
  shows "2 powi (ilog2 x) \<le> x \<and> x < 2 powi (ilog2 x + 1)"
proof (cases "1 \<le> x")
  case True
  define n where "n = nat \<lfloor>x\<rfloor>"
  define k where "k = bit_count n"
  have n: "0 < n" "real n \<le> x" "x < real n + 1"
    using True unfolding n_def by (simp_all add: of_nat_nat)
  have k: "0 < k" "2 ^ (k - 1) \<le> n" "n < 2 ^ k"
    using bit_count_bounds [OF n(1)] bit_count_pos [OF n(1)] unfolding k_def by simp_all
  have e: "ilog2 x = int (k - 1)" "ilog2 x + 1 = int k"
    using True k(1) unfolding ilog2_def k_def n_def by (simp_all add: of_nat_diff)
  have "real (2 ^ (k - 1)) \<le> real n" using k(2) by (simp only: of_nat_le_iff)
  then have "(2::real) ^ (k - 1) \<le> real n" by simp
  with n(2) have lo: "(2::real) ^ (k - 1) \<le> x" by linarith
  have "n + 1 \<le> 2 ^ k" using k(3) by simp
  then have "real (n + 1) \<le> real (2 ^ k)" by (simp only: of_nat_le_iff)
  then have "real n + 1 \<le> (2::real) ^ k" by simp
  with n(3) have hi: "x < (2::real) ^ k" by linarith
  have p1: "(2::real) powi (ilog2 x) = 2 ^ (k - 1)"
    by (simp only: e(1) power_int_of_nat)
  have p2: "(2::real) powi (ilog2 x + 1) = 2 ^ k"
    by (simp only: e(2) power_int_of_nat)
  show ?thesis unfolding p1 p2 using lo hi by simp
next
  case False
  then have x1: "x < 1" by simp
  define c where "c = nat \<lceil>1 / x\<rceil> - 1"
  define k where "k = bit_count c"
  have inv: "1 < 1 / x" using assms x1 by simp
  then have "2 \<le> \<lceil>1 / x\<rceil>" by linarith
  then have c: "0 < c" "real c < 1 / x" "1 / x \<le> real c + 1"
    unfolding c_def by (simp_all add: of_nat_diff) linarith+
  have k: "0 < k" "2 ^ (k - 1) \<le> c" "c < 2 ^ k"
    using bit_count_bounds [OF c(1)] bit_count_pos [OF c(1)] unfolding k_def by simp_all
  have e: "ilog2 x = - int k"
    using False unfolding ilog2_def k_def c_def by simp
  have "c + 1 \<le> 2 ^ k" using k(3) by simp
  then have "real (c + 1) \<le> real (2 ^ k)" by (simp only: of_nat_le_iff)
  then have "real c + 1 \<le> (2::real) ^ k" by simp
  with c(3) have "1 / x \<le> 2 ^ k" by linarith
  then have lo: "1 / 2 ^ k \<le> x"
    using assms by (simp add: field_simps)
  have "real (2 ^ (k - 1)) \<le> real c" using k(2) by (simp only: of_nat_le_iff)
  then have "(2::real) ^ (k - 1) \<le> real c" by simp
  then have "2 ^ (k - 1) < 1 / x" using c(2) by linarith
  then have hi: "x < 1 / 2 ^ (k - 1)"
    using assms by (simp add: field_simps)
  have p1: "(2::real) powi (- int k) = 1 / 2 ^ k"
    by (rule two_powi_neg)
  have "- int k + 1 = - int (k - 1)" using k(1) by (simp add: of_nat_diff)
  then have p2: "(2::real) powi (- int k + 1) = 1 / 2 ^ (k - 1)"
    by (simp only: two_powi_neg)
  show ?thesis unfolding e p1 p2 using lo hi by simp
qed

lemma two_powi_less_iff: "(2::real) powi a < 2 powi b \<longleftrightarrow> a < b"
proof
  assume l: "(2::real) powi a < 2 powi b"
  show "a < b"
  proof (rule ccontr)
    assume "\<not> a < b"
    then have "b \<le> a" by simp
    then have "(2::real) powi b \<le> 2 powi a" by (rule power_int_increasing) simp
    with l show False by simp
  qed
next
  assume "a < b"
  then show "(2::real) powi a < 2 powi b" by (rule power_int_strict_increasing) simp
qed

lemma two_powi_le_iff: "(2::real) powi a \<le> 2 powi b \<longleftrightarrow> a \<le> b"
  using two_powi_less_iff [of b a] by (simp add: not_less [symmetric])

lemma ilog2_unique:
  assumes "0 < x" and "2 powi e \<le> x" and "x < 2 powi (e + 1)"
  shows "ilog2 x = e"
proof -
  from ilog2_bounds [OF assms(1)]
  have b: "2 powi (ilog2 x) \<le> x" "x < 2 powi (ilog2 x + 1)" by simp_all
  have "(2::real) powi e < 2 powi (ilog2 x + 1)" using assms(2) b(2) by simp
  then have "e < ilog2 x + 1" by (simp add: two_powi_less_iff)
  moreover have "(2::real) powi (ilog2 x) < 2 powi (e + 1)" using assms(3) b(1) by simp
  then have "ilog2 x < e + 1" by (simp add: two_powi_less_iff)
  ultimately show ?thesis by simp
qed

subsection \<open>Rounding within a binade\<close>

text \<open>
  A positive number \<open>x\<close> with \<open>2 ^ e \<le> x < 2 ^ (e + 1)\<close> is rounded to a multiple of
  \<open>2 ^ (e - 52)\<close> between \<open>2 ^ e\<close> and \<open>2 ^ (e + 1)\<close>, and to itself if it is such a
  multiple.
\<close>

lemma round_even_of_int: "round_even (of_int k) = k"
  by (simp add: round_even_def)

lemma round_even_ge_floor: "\<lfloor>r\<rfloor> \<le> round_even r"
  by (simp add: round_even_def Let_def)

lemma round_even_le_floor1: "round_even r \<le> \<lfloor>r\<rfloor> + 1"
  by (simp add: round_even_def Let_def)

lemma round_even_le:
  assumes "r \<le> of_int m"
  shows "round_even r \<le> m"
proof (cases "r = of_int m")
  case True
  then show ?thesis by (simp add: round_even_of_int)
next
  case False
  with assms have "r < of_int m" by simp
  then have "\<lfloor>r\<rfloor> < m" by (simp add: floor_less_iff)
  with round_even_le_floor1 [of r] show ?thesis by simp
qed

lemma round_even_ge:
  assumes "of_int m \<le> r"
  shows "m \<le> round_even r"
proof -
  from assms have "m \<le> \<lfloor>r\<rfloor>" by (simp add: le_floor_iff)
  with round_even_ge_floor [of r] show ?thesis by simp
qed

lemma two_powi_pos: "0 < (2::real) powi e"
  by simp

lemma round_double_binade:
  assumes "0 < x" and "2 powi e \<le> x" and "x < 2 powi (e + 1)" and "- 1022 \<le> e"
  shows "round_double x = of_int (round_even (x / 2 powi (e - 52))) * 2 powi (e - 52)"
proof -
  have "ilog2 \<bar>x\<bar> = e"
    using assms(1) ilog2_unique [OF assms(1,2,3)] by simp
  then show ?thesis
    using assms(1,4) by (simp add: round_double_def Let_def)
qed

lemma two_powi_split: "(2::real) powi e = 2 ^ 52 * 2 powi (e - 52)"
proof -
  have "(2::real) powi (52 + (e - 52)) = 2 powi 52 * 2 powi (e - 52)"
    by (rule power_int_add) simp
  then show ?thesis by simp
qed

lemma two_powi_split1: "(2::real) powi (e + 1) = 2 ^ 53 * 2 powi (e - 52)"
proof -
  have "(2::real) powi (53 + (e - 52)) = 2 powi 53 * 2 powi (e - 52)"
    by (rule power_int_add) simp
  then show ?thesis by (simp add: add.commute)
qed

lemma round_double_bounds:
  assumes "0 < x" and "2 powi e \<le> x" and "x < 2 powi (e + 1)" and "- 1022 \<le> e"
  shows "2 powi e \<le> round_double x" and "round_double x \<le> 2 powi (e + 1)"
proof -
  define u :: real where "u = 2 powi (e - 52)"
  have u: "0 < u" by (simp add: u_def)
  have lo: "of_int (2 ^ 52) \<le> x / u"
    using assms(2) u unfolding two_powi_split [of e] u_def [symmetric]
    by (simp add: pos_le_divide_eq)
  have hi: "x / u \<le> of_int (2 ^ 53)"
    using assms(3) u unfolding two_powi_split1 [of e] u_def [symmetric]
    by (simp add: pos_divide_le_eq)
  have r: "2 ^ 52 \<le> round_even (x / u)" "round_even (x / u) \<le> 2 ^ 53"
    using round_even_ge [OF lo] round_even_le [OF hi] by simp_all
  have rd: "round_double x = of_int (round_even (x / u)) * u"
    unfolding u_def by (rule round_double_binade [OF assms])
  have "(2::real) ^ 52 \<le> of_int (round_even (x / u))"
    using r(1) by (metis of_int_le_iff of_int_numeral of_int_power)
  then have "2 ^ 52 * u \<le> of_int (round_even (x / u)) * u"
    using u by (simp add: mult_le_cancel_right)
  then show "2 powi e \<le> round_double x"
    unfolding rd two_powi_split [of e] u_def [symmetric] .
  have "of_int (round_even (x / u)) \<le> (2::real) ^ 53"
    using r(2) by (metis of_int_le_iff of_int_numeral of_int_power)
  then have "of_int (round_even (x / u)) * u \<le> 2 ^ 53 * u"
    using u by (simp add: mult_le_cancel_right)
  then show "round_double x \<le> 2 powi (e + 1)"
    unfolding rd two_powi_split1 [of e] u_def [symmetric] .
qed

lemma round_double_exact:
  assumes "0 < x" and "2 powi e \<le> x" and "x < 2 powi (e + 1)" and "- 1022 \<le> e"
    and "x = of_int m * 2 powi (e - 52)"
  shows "round_double x = x"
proof -
  have "x / 2 powi (e - 52) = of_int m"
    using assms(5) by simp
  then show ?thesis
    unfolding round_double_binade [OF assms(1,2,3,4)]
    using assms(5) by (simp add: round_even_of_int)
qed

subsection \<open>Numbers that are not changed, and bounds that are kept\<close>

lemma round_double_0: "round_double 0 = 0"
  by (simp add: round_double_def)

lemma ilog2_ge:
  assumes "0 < x" and "2 powi j \<le> x"
  shows "j \<le> ilog2 x"
proof -
  from ilog2_bounds [OF assms(1)] assms(2)
  have "(2::real) powi j < 2 powi (ilog2 x + 1)" by simp
  then show ?thesis by (simp add: two_powi_less_iff)
qed

lemma ilog2_le:
  assumes "0 < x" and "x \<le> 2 powi j"
  shows "ilog2 x \<le> j"
proof -
  from ilog2_bounds [OF assms(1)] assms(2)
  have "(2::real) powi (ilog2 x) \<le> 2 powi j" by simp
  then show ?thesis by (simp add: two_powi_le_iff)
qed

lemma round_double_ge_pow:
  assumes "- 1022 \<le> j" and "2 powi j \<le> x"
  shows "2 powi j \<le> round_double x"
proof -
  have x: "0 < x" using assms(2) two_powi_pos [of j] by linarith
  define e where "e = ilog2 x"
  have b: "2 powi e \<le> x" "x < 2 powi (e + 1)"
    using ilog2_bounds [OF x] by (simp_all add: e_def)
  have je: "j \<le> e" unfolding e_def using x assms(2) by (rule ilog2_ge)
  with assms(1) have "- 1022 \<le> e" by simp
  from round_double_bounds(1) [OF x b this] have "2 powi e \<le> round_double x" .
  moreover have "(2::real) powi j \<le> 2 powi e" using je by (simp add: two_powi_le_iff)
  ultimately show ?thesis by linarith
qed

lemma round_double_pow: "- 1022 \<le> j \<Longrightarrow> round_double (2 powi j) = 2 powi j"
proof -
  assume j: "- 1022 \<le> j"
  have "(2::real) powi j < 2 powi (j + 1)" by (simp add: two_powi_less_iff)
  moreover have "(2::real) powi j = of_int (2 ^ 52) * 2 powi (j - 52)"
    using two_powi_split [of j] by simp
  ultimately show ?thesis
    using round_double_exact [of "2 powi j" j "2 ^ 52"] j by simp
qed

lemma round_double_le_pow:
  assumes "2 powi (- 1022) \<le> x" and "x \<le> 2 powi j"
  shows "round_double x \<le> 2 powi j"
proof -
  have x: "0 < x" using assms(1) two_powi_pos [of "- 1022"] by linarith
  define e where "e = ilog2 x"
  have b: "2 powi e \<le> x" "x < 2 powi (e + 1)"
    using ilog2_bounds [OF x] by (simp_all add: e_def)
  have e: "- 1022 \<le> e" unfolding e_def using x assms(1) by (rule ilog2_ge)
  have ej: "e \<le> j" unfolding e_def using x assms(2) by (rule ilog2_le)
  show ?thesis
  proof (cases "x = 2 powi j")
    case True
    have "- 1022 \<le> j" using e ej by simp
    then show ?thesis unfolding True by (simp add: round_double_pow)
  next
    case False
    with assms(2) have "x < 2 powi j" by simp
    with b(1) have "(2::real) powi e < 2 powi j" by linarith
    then have "e + 1 \<le> j" by (simp add: two_powi_less_iff)
    then have "(2::real) powi (e + 1) \<le> 2 powi j" by (simp add: two_powi_le_iff)
    with round_double_bounds(2) [OF x b e] show ?thesis by linarith
  qed
qed

lemma round_double_nat:
  assumes "k \<le> 2 ^ 53"
  shows "round_double (real k) = real k"
proof (cases "k = 0")
  case True
  then show ?thesis by (simp add: round_double_0)
next
  case False
  then have x: "0 < real k" by simp
  define e where "e = ilog2 (real k)"
  have b: "2 powi e \<le> real k" "real k < 2 powi (e + 1)"
    using ilog2_bounds [OF x] by (simp_all add: e_def)
  have "(2::real) powi 0 \<le> real k" using False by simp
  with x have e0: "0 \<le> e" unfolding e_def by (rule ilog2_ge)
  have "real k \<le> real (2 ^ 53)" using assms by (simp only: of_nat_le_iff)
  then have k53: "real k \<le> 2 ^ 53" by simp
  then have "real k \<le> 2 powi 53" by simp
  with x have e53: "e \<le> 53" unfolding e_def by (rule ilog2_le)
  show ?thesis
  proof (cases "e = 53")
    case True
    have "(2::real) ^ 53 \<le> real k" using b(1) unfolding True by simp
    with k53 have k: "real k = 2 powi 53" by simp
    show ?thesis unfolding k by (rule round_double_pow) simp
  next
    case False
    with e53 have le: "e \<le> 52" by simp
    have "(2::real) powi (52 - e) * 2 powi (e - 52) = 2 powi ((52 - e) + (e - 52))"
      by (rule power_int_add [symmetric]) simp
    then have one: "(2::real) powi (52 - e) * 2 powi (e - 52) = 1" by simp
    have "(2::real) powi (52 - e) = 2 ^ nat (52 - e)"
      using le by (simp add: power_int_def)
    then have m: "of_int (int k * 2 ^ nat (52 - e)) = real k * 2 powi (52 - e)" by simp
    have "of_int (int k * 2 ^ nat (52 - e)) * 2 powi (e - 52)
               = real k * (2 powi (52 - e) * 2 powi (e - 52))"
      unfolding m by (simp only: mult.assoc)
    then have eq: "real k = of_int (int k * 2 ^ nat (52 - e)) * 2 powi (e - 52)"
      unfolding one by simp
    have "- 1022 \<le> e" using e0 by simp
    with x b show ?thesis using eq by (rule round_double_exact)
  qed
qed

lemma round_double_below_one:
  assumes "2 powi (- 1022) \<le> x" and "x \<le> 1 - 1 / 2 ^ 53"
  shows "round_double x \<le> 1 - 1 / 2 ^ 53"
proof -
  have x: "0 < x" using assms(1) two_powi_pos [of "- 1022"] by linarith
  define e where "e = ilog2 x"
  have b: "2 powi e \<le> x" "x < 2 powi (e + 1)"
    using ilog2_bounds [OF x] by (simp_all add: e_def)
  have e: "- 1022 \<le> e" unfolding e_def using x assms(1) by (rule ilog2_ge)
  have "x < 2 powi 0" using assms(2) by simp
  with b(1) have "(2::real) powi e < 2 powi 0" by linarith
  then have "e < 0" by (simp only: two_powi_less_iff)
  then have neg: "e \<le> - 1" by simp
  show ?thesis
  proof (cases "e = - 1")
    case True
    have u: "(2::real) powi (e - 52) = 1 / 2 ^ 53"
      unfolding True using two_powi_neg [of 53] by simp
    have "x * 2 ^ 53 \<le> (1 - 1 / 2 ^ 53) * 2 ^ 53"
      using assms(2) by (rule mult_right_mono) simp
    also have "\<dots> = of_int (2 ^ 53 - 1)" by simp
    finally have "x / (1 / 2 ^ 53) \<le> of_int (2 ^ 53 - 1)" by simp
    then have "round_even (x / (1 / 2 ^ 53)) \<le> 2 ^ 53 - 1" by (rule round_even_le)
    then have "(of_int (round_even (x / (1 / 2 ^ 53))) :: real) \<le> of_int (2 ^ 53 - 1)"
      by (simp only: of_int_le_iff)
    then have "of_int (round_even (x / (1 / 2 ^ 53))) * (1 / 2 ^ 53)
               \<le> (of_int (2 ^ 53 - 1) :: real) * (1 / 2 ^ 53)"
      by (rule mult_right_mono) simp
    then show ?thesis
      unfolding round_double_binade [OF x b e] u by simp
  next
    case False
    with neg have "e + 1 \<le> - 1" by simp
    then have "(2::real) powi (e + 1) \<le> 2 powi (- 1)" by (simp only: two_powi_le_iff)
    also have "\<dots> \<le> 1 - 1 / 2 ^ 53" by (simp add: power_int_minus)
    finally show ?thesis using round_double_bounds(2) [OF x b e] by linarith
  qed
qed

subsection \<open>The smoothed probability\<close>

text \<open>
  The numerator is a double between 1 and \<open>2 ^ 65\<close>, the denominator a double between 1
  and \<open>2 ^ 66\<close>. For counts below \<open>2 ^ 53 - 1\<close> the conversions and the sums are exact,
  and only the quotient is rounded.
\<close>

lemma tiny_le_one: "(2::real) powi (- 1022) \<le> 1"
proof -
  have "(2::real) powi (- 1022) \<le> 2 powi 0" by (simp only: two_powi_le_iff)
  then show ?thesis by simp
qed

lemma round_double_ge_one: "1 \<le> x \<Longrightarrow> 1 \<le> round_double x"
  using round_double_ge_pow [of 0 x] by simp

lemma round_double_le_pow_nat:
  assumes "1 \<le> x" and "x \<le> 2 ^ j"
  shows "round_double x \<le> 2 ^ j"
proof -
  have "2 powi (- 1022) \<le> x" using assms(1) tiny_le_one by linarith
  moreover have "x \<le> 2 powi (int j)" using assms(2) by (simp only: power_int_of_nat)
  ultimately have "round_double x \<le> 2 powi (int j)" by (rule round_double_le_pow)
  then show ?thesis by (simp only: power_int_of_nat)
qed

lemma double_of_u64_range: "0 \<le> double_of_u64 w \<and> double_of_u64 w \<le> 2 ^ 64"
proof -
  define k where "k = unat w"
  have d: "double_of_u64 w = round_double (real k)"
    by (simp only: double_of_u64_def k_def)
  have "k < 2 ^ 64" unfolding k_def using unsigned_less [of w] by simp
  then have "real k \<le> real (2 ^ 64)" by (simp only: of_nat_le_iff less_imp_le)
  then have lt: "real k \<le> 2 ^ 64" by simp
  show ?thesis
  proof (cases "k = 0")
    case True
    then show ?thesis unfolding d by (simp add: round_double_0)
  next
    case False
    then have one: "1 \<le> real k" by simp
    from round_double_ge_one [OF one] round_double_le_pow_nat [OF one lt]
    show ?thesis unfolding d by simp
  qed
qed

lemma double_of_u64_bounds: "0 \<le> double_of_u64 w" "double_of_u64 w \<le> 2 ^ 64"
  using double_of_u64_range [of w] by simp_all

lemma numerator_bounds:
  "1 \<le> dadd (double_of_u64 w) 1" "dadd (double_of_u64 w) 1 \<le> 2 ^ 65"
proof -
  have one: "1 \<le> double_of_u64 w + 1" using double_of_u64_bounds(1) [of w] by simp
  have "double_of_u64 w + 1 \<le> 2 ^ 64 + 1" using double_of_u64_bounds(2) [of w] by simp
  also have "\<dots> \<le> (2::real) ^ 65" by simp
  finally have le: "double_of_u64 w + 1 \<le> 2 ^ 65" .
  show "1 \<le> dadd (double_of_u64 w) 1" unfolding dadd_def using one by (rule round_double_ge_one)
  show "dadd (double_of_u64 w) 1 \<le> 2 ^ 65"
    unfolding dadd_def using one le by (rule round_double_le_pow_nat)
qed

lemma denominator_bounds:
  "1 \<le> dadd (dadd (double_of_u64 n) 1) 1" "dadd (dadd (double_of_u64 n) 1) 1 \<le> 2 ^ 66"
proof -
  let ?a = "dadd (double_of_u64 n) 1"
  have one: "1 \<le> ?a + 1" using numerator_bounds(1) [of n] by simp
  have "?a + 1 \<le> 2 ^ 65 + 1" using numerator_bounds(2) [of n] by simp
  also have "\<dots> \<le> (2::real) ^ 66" by simp
  finally have le: "?a + 1 \<le> 2 ^ 66" .
  show "1 \<le> dadd ?a 1" unfolding dadd_def [of ?a] using one by (rule round_double_ge_one)
  show "dadd ?a 1 \<le> 2 ^ 66"
    unfolding dadd_def [of ?a] using one le by (rule round_double_le_pow_nat)
qed

lemma labels_smooth_prob_pos: "0 < labels_smooth_prob w n"
proof -
  let ?a = "dadd (double_of_u64 w) 1"
  let ?b = "dadd (dadd (double_of_u64 n) 1) 1"
  have b: "0 < ?b" using denominator_bounds(1) [of n] by linarith
  have "1 / 2 ^ 66 \<le> 1 / ?b"
    using denominator_bounds(2) [of n] b by (simp add: frac_le)
  also have "1 / ?b \<le> ?a / ?b"
    using numerator_bounds(1) [of w] b by (simp add: divide_right_mono)
  finally have "2 powi (- 66) \<le> ?a / ?b"
    using two_powi_neg [of 66] by simp
  then have "2 powi (- 66) \<le> round_double (?a / ?b)"
    by (rule round_double_ge_pow [rotated]) simp
  moreover have "0 < (2::real) powi (- 66)" by (rule two_powi_pos)
  ultimately show ?thesis
    unfolding labels_smooth_prob_def ddiv_def by linarith
qed

lemma labels_smooth_prob_small:
  assumes "unat w < 2 ^ 53 - 1" and "unat n < 2 ^ 53 - 1"
  shows "labels_smooth_prob w n
         = round_double ((real (unat w) + 1) / (real (unat n) + 2))"
proof -
  define i where "i = unat w"
  define j where "j = unat n"
  have i: "i \<le> 2 ^ 53" "i + 1 \<le> 2 ^ 53"
    and j: "j \<le> 2 ^ 53" "j + 1 \<le> 2 ^ 53" "j + 2 \<le> 2 ^ 53"
    using assms unfolding i_def j_def by simp_all
  have dw: "double_of_u64 w = real i" "double_of_u64 n = real j"
    unfolding double_of_u64_def i_def [symmetric] j_def [symmetric]
    using i(1) j(1) by (simp_all only: round_double_nat)
  have a: "dadd (real i) 1 = real (i + 1)"
  proof -
    have "real i + 1 = real (i + 1)" by simp
    then show ?thesis unfolding dadd_def using i(2) by (simp only: round_double_nat)
  qed
  have b1: "dadd (real j) 1 = real (j + 1)"
  proof -
    have "real j + 1 = real (j + 1)" by simp
    then show ?thesis unfolding dadd_def using j(2) by (simp only: round_double_nat)
  qed
  have b2: "dadd (real (j + 1)) 1 = real (j + 2)"
  proof -
    have "real (j + 1) + 1 = real (j + 2)" by simp
    then show ?thesis unfolding dadd_def using j(3) by (simp only: round_double_nat)
  qed
  have "labels_smooth_prob w n = round_double (real (i + 1) / real (j + 2))"
    unfolding labels_smooth_prob_def dw a b1 b2 ddiv_def ..
  also have "real (i + 1) / real (j + 2) = (real i + 1) / (real j + 2)"
    by (simp add: add.commute)
  finally show ?thesis unfolding i_def j_def .
qed

lemma labels_smooth_prob_lt_1:
  assumes "w \<le> n" and "unat n < 2 ^ 53 - 1"
  shows "labels_smooth_prob w n < 1"
proof -
  define i where "i = unat w"
  define j where "j = unat n"
  have ij: "i \<le> j" unfolding i_def j_def using assms(1) by (simp add: word_le_nat_alt)
  have j: "j + 2 \<le> 2 ^ 53" using assms(2) unfolding j_def by simp
  then have "real (j + 2) \<le> real (2 ^ 53)" by (simp only: of_nat_le_iff)
  then have j': "real j + 2 \<le> 2 ^ 53" by simp
  have "unat w < 2 ^ 53 - 1" using ij assms(2) unfolding i_def j_def by simp
  from labels_smooth_prob_small [OF this assms(2)]
  have sp: "labels_smooth_prob w n = round_double ((real i + 1) / (real j + 2))"
    unfolding i_def j_def .
  have den: "0 < real j + 2" by simp
  have "(real i + 1) / (real j + 2) \<le> (real j + 1) / (real j + 2)"
    using ij den by (simp add: divide_right_mono)
  also have "\<dots> = 1 - 1 / (real j + 2)"
    using den by (simp add: field_simps)
  also have "\<dots> \<le> 1 - 1 / 2 ^ 53"
  proof -
    have "1 / (2::real) ^ 53 \<le> 1 / (real j + 2)"
      using j' den by (rule_tac frac_le) simp_all
    then show ?thesis by linarith
  qed
  finally have up: "(real i + 1) / (real j + 2) \<le> 1 - 1 / 2 ^ 53" .
  have "1 / (2::real) ^ 53 \<le> 1 / (real j + 2)"
    using j' den by (rule_tac frac_le) simp_all
  also have "\<dots> \<le> (real i + 1) / (real j + 2)"
    using den by (simp add: divide_right_mono)
  finally have "2 powi (- 53) \<le> (real i + 1) / (real j + 2)"
    using two_powi_neg [of 53] by simp
  moreover have "(2::real) powi (- 1022) \<le> 2 powi (- 53)"
    by (simp only: two_powi_le_iff)
  ultimately have lo: "2 powi (- 1022) \<le> (real i + 1) / (real j + 2)" by linarith
  from round_double_below_one [OF lo up] have "labels_smooth_prob w n \<le> 1 - 1 / 2 ^ 53"
    unfolding sp .
  then show ?thesis by simp
qed

lemma labels_smooth_prob_ge_1:
  assumes "n < w" and "unat w < 2 ^ 53 - 1"
  shows "1 \<le> labels_smooth_prob w n"
proof -
  define i where "i = unat w"
  define j where "j = unat n"
  have ij: "j < i" unfolding i_def j_def using assms(1) by (simp add: word_less_nat_alt)
  have "unat n < 2 ^ 53 - 1" using ij assms(2) unfolding i_def j_def by simp
  from labels_smooth_prob_small [OF assms(2) this]
  have sp: "labels_smooth_prob w n = round_double ((real i + 1) / (real j + 2))"
    unfolding i_def j_def .
  have "j + 1 \<le> i" using ij by simp
  then have "real (j + 1) \<le> real i" by (simp only: of_nat_le_iff)
  then have "real j + 2 \<le> real i + 1" by simp
  then have "1 \<le> (real i + 1) / (real j + 2)" by (simp add: le_divide_eq_1)
  then show ?thesis unfolding sp by (rule round_double_ge_one)
qed

lemma labels_smooth_prob_half: "labels_smooth_prob 0 0 = 1 / 2"
proof -
  have "labels_smooth_prob 0 0 = round_double ((real (unat (0::u64)) + 1) / (real (unat (0::u64)) + 2))"
    by (rule labels_smooth_prob_small) simp_all
  also have "\<dots> = round_double (2 powi (- 1))" by (simp add: power_int_minus)
  also have "\<dots> = 2 powi (- 1)" by (rule round_double_pow) simp
  finally show ?thesis by (simp add: power_int_minus)
qed

lemma labels_smooth_prob_1_0: "labels_smooth_prob 1 0 = 1"
proof -
  have "labels_smooth_prob 1 0 = round_double ((real (unat (1::u64)) + 1) / (real (unat (0::u64)) + 2))"
    by (rule labels_smooth_prob_small) simp_all
  also have "\<dots> = round_double (2 powi 0)" by simp
  also have "\<dots> = 2 powi 0" by (rule round_double_pow) simp
  finally show ?thesis by simp
qed

text \<open>
  At \<open>2 ^ 53 + 1\<close> the rounding is a tie, which goes down to \<open>2 ^ 53\<close>; so for the count
  \<open>2 ^ 53 - 1\<close>, twice, numerator and denominator are both \<open>2 ^ 53\<close>.
\<close>

lemma round_double_tie: "round_double 9007199254740993 = 9007199254740992"
proof -
  have b: "(0::real) < 9007199254740993" "2 powi 53 \<le> (9007199254740993::real)"
    "(9007199254740993::real) < 2 powi (53 + 1)" "- 1022 \<le> (53::int)"
    by simp_all
  have u: "(2::real) powi (53 - 52) = 2" by simp
  have f: "\<lfloor>(9007199254740993::real) / 2\<rfloor> = 4503599627370496" by simp
  have "round_even ((9007199254740993::real) / 2) = 4503599627370496"
    unfolding round_even_def f Let_def by simp
  then show ?thesis
    unfolding round_double_binade [OF b] u by simp
qed

lemma labels_smooth_prob_2_53:
  "labels_smooth_prob 9007199254740991 9007199254740991 = 1"
proof -
  have d: "double_of_u64 9007199254740991 = 9007199254740991"
  proof -
    have "unat (9007199254740991 :: u64) = 9007199254740991" by simp
    moreover have "round_double (real 9007199254740991) = real 9007199254740991"
      by (rule round_double_nat) simp
    ultimately show ?thesis by (simp add: double_of_u64_def)
  qed
  have a: "dadd 9007199254740991 1 = 9007199254740992"
  proof -
    have "round_double (real 9007199254740992) = real 9007199254740992"
      by (rule round_double_nat) simp
    then show ?thesis by (simp add: dadd_def)
  qed
  have b: "dadd 9007199254740992 1 = 9007199254740992"
    using round_double_tie by (simp add: dadd_def)
  have q: "ddiv 9007199254740992 9007199254740992 = 1"
    using round_double_pow [of 0] by (simp add: ddiv_def)
  show ?thesis
    unfolding labels_smooth_prob_def d a b q ..
qed

section \<open>Pair keys\<close>

lemma mask32: "(0xFFFFFFFF :: u64) = mask 32"
  by (simp add: mask_eq_exp_minus_1)

lemma pair_decode_pair_key:
  "pair_decode (pair_key a b) =
     (if a > b then (b AND 0xFFFFFFFF, a AND 0xFFFFFFFF)
      else (a AND 0xFFFFFFFF, b AND 0xFFFFFFFF))"
  unfolding pair_key_def pair_decode_def Let_def mask32
  apply (simp split: if_splits)
  apply (intro conjI impI)
     apply (rule bit_word_eqI; simp add: bit_simps; auto)+
  done

lemma pair_key_commute: "pair_key a b = pair_key b a"
  unfolding pair_key_def Let_def
  by (cases "a = b") (auto simp: not_less)

text \<open>
  Claim C3. \<^verbatim>\<open>pair_key\<close> does not depend on the order of its arguments, and the two
  values that \<^verbatim>\<open>pair_decode\<close> reads from \<open>pair_key a b\<close> are, as an unordered pair, the
  low 32 bits of \<open>a\<close> and of \<open>b\<close>.
\<close>

theorem pair_key_unordered:
  "pair_key a b = pair_key b a \<and>
   {fst (pair_decode (pair_key a b)), snd (pair_decode (pair_key a b))} =
     {a AND 0xFFFFFFFF, b AND 0xFFFFFFFF}"
  using pair_key_commute [of a b] by (auto simp: pair_decode_pair_key)

section \<open>The sentinel keys\<close>

text \<open>
  Claim C10. The two sentinel values, \<^verbatim>\<open>UINT64_MAX\<close> and \<^verbatim>\<open>UINT64_MAX - 1\<close>, are never
  stored: on any map and with any allocator, \<^verbatim>\<open>hashmap_get\<close> and \<^verbatim>\<open>hashmap_put\<close>
  return \<^verbatim>\<open>NULL\<close> for them and \<^verbatim>\<open>hashmap_put\<close> and \<^verbatim>\<open>hashmap_increment\<close> leave the
  map as it was.
\<close>

theorem sentinel_keys_rejected:
  "HASH_EMPTY_KEY = 0xFFFFFFFFFFFFFFFF \<and> HASH_TOMBSTONE = 0xFFFFFFFFFFFFFFFE \<and>
   hashmap_get m HASH_EMPTY_KEY = None \<and> hashmap_get m HASH_TOMBSTONE = None \<and>
   hashmap_put alloc m HASH_EMPTY_KEY = Inr (m, None) \<and>
   hashmap_put alloc m HASH_TOMBSTONE = Inr (m, None) \<and>
   hashmap_increment alloc m HASH_EMPTY_KEY win = Inr m \<and>
   hashmap_increment alloc m HASH_TOMBSTONE win = Inr m"
proof -
  have a: "\<not> valid_key HASH_EMPTY_KEY" and b: "\<not> valid_key HASH_TOMBSTONE"
    by (simp_all add: valid_key_def)
  show ?thesis
    using hashmap_get_invalid [OF a] hashmap_get_invalid [OF b]
      hashmap_put_invalid [OF a] hashmap_put_invalid [OF b]
      hashmap_increment_noop [of HASH_EMPTY_KEY] hashmap_increment_noop [of HASH_TOMBSTONE] a b
    by (simp add: HASH_EMPTY_KEY_def HASH_TOMBSTONE_def)
qed

section \<open>Smoothed probabilities\<close>

text \<open>
  Claim C7, as stated, fails: \<open>labels_smooth_prob 1 0\<close> is \<open>(1 + 1) / (0 + 2) = 1\<close>, which
  is not below 1; and with \<open>w = n = 2 ^ 53 - 1\<close>, where the wins do not exceed the games,
  the sum \<open>n + 1 + 1\<close> is rounded to \<open>2 ^ 53\<close>, which is \<open>w + 1\<close>, and the result is
  1 again.
\<close>

theorem labels_smooth_prob_one:
  "labels_smooth_prob 1 0 = 1 \<and>
   (9007199254740991 :: u64) = 2 ^ 53 - 1 \<and>
   labels_smooth_prob 9007199254740991 9007199254740991 = 1"
  using labels_smooth_prob_1_0 labels_smooth_prob_2_53 by simp

text \<open>
  Claim C7, amended. \<open>labels_smooth_prob 0 0\<close> is one half, and the result is positive
  for all counts. For counts \<open>w\<close> and \<open>n\<close> below \<open>2 ^ 53 - 1\<close> the result is the double
  nearest to \<open>(w + 1) / (n + 2)\<close>, and it is below 1 exactly when \<open>w \<le> n\<close>.
\<close>

theorem labels_smooth_prob_range:
  "labels_smooth_prob 0 0 = 1 / 2 \<and>
   0 < labels_smooth_prob w n \<and>
   (unat w < 2 ^ 53 - 1 \<and> unat n < 2 ^ 53 - 1 \<longrightarrow>
      labels_smooth_prob w n = round_double ((real (unat w) + 1) / (real (unat n) + 2)) \<and>
      (labels_smooth_prob w n < 1 \<longleftrightarrow> w \<le> n))"
proof (intro conjI impI)
  show "labels_smooth_prob 0 0 = 1 / 2" by (rule labels_smooth_prob_half)
  show "0 < labels_smooth_prob w n" by (rule labels_smooth_prob_pos)
next
  assume s: "unat w < 2 ^ 53 - 1 \<and> unat n < 2 ^ 53 - 1"
  then show "labels_smooth_prob w n = round_double ((real (unat w) + 1) / (real (unat n) + 2))"
    by (intro labels_smooth_prob_small) simp_all
  show "labels_smooth_prob w n < 1 \<longleftrightarrow> w \<le> n"
  proof
    assume lt: "labels_smooth_prob w n < 1"
    show "w \<le> n"
    proof (rule ccontr)
      assume "\<not> w \<le> n"
      then have "n < w" by simp
      with s have "1 \<le> labels_smooth_prob w n" by (intro labels_smooth_prob_ge_1) simp_all
      with lt show False by simp
    qed
  next
    assume "w \<le> n"
    with s show "labels_smooth_prob w n < 1" by (intro labels_smooth_prob_lt_1) simp_all
  qed
qed

theorem labels_smooth_prob_range_witness:
  "unat (340 :: u64) < 2 ^ 53 - 1 \<and> unat (510 :: u64) < 2 ^ 53 - 1 \<and>
   (340 :: u64) \<le> 510 \<and>
   0 < labels_smooth_prob 340 510 \<and>
   labels_smooth_prob 340 510 = round_double (341 / 512) \<and>
   labels_smooth_prob 340 510 < 1"
  using labels_smooth_prob_range [of 340 510] by simp

subsection \<open>The scenario contexts, evaluated\<close>

lemma scenario_lookups:
  "hm_lookup (card_stats scenario_ctx) 1 = Some (600, 360)"
  "hm_lookup (card_stats scenario_ctx) 2 = Some (550, 350)"
  "hm_lookup (card_stats scenario_ctx) 3 = Some (400, 250)"
  "hm_lookup (card_stats scenario_ctx) 4 = None"
  "hm_lookup (pair_stats scenario_ctx) (pair_key 1 2) = Some (510, 340)"
  "hm_lookup (pair_stats scenario_ctx) (pair_key 1 3) = Some (100, 60)"
  by (simp_all add: scenario_ctx_def hm_eval pair_key_def)

lemma scenario_bad_lookups:
  "hm_lookup (card_stats scenario_bad_ctx) 1 = Some (500, 300)"
  "hm_lookup (card_stats scenario_bad_ctx) 2 = Some (400, 250)"
  "hm_lookup (pair_stats scenario_bad_ctx) (pair_key 1 2) = Some (510, 340)"
  by (simp_all add: scenario_bad_ctx_def hm_eval pair_key_def)

lemma scenario_totals:
  "total_games scenario_ctx = 1000" "total_wins scenario_ctx = 600"
  "total_games scenario_bad_ctx = 1000" "total_wins scenario_bad_ctx = 600"
  by (simp_all add: scenario_ctx_def scenario_bad_ctx_def)

lemma scenario_result:
  "snd (labels_compute_pair scenario_ctx 1 2) = Inr scenario_record"
  unfolding labels_compute_pair_found [OF scenario_lookups(1,2,5)] scenario_totals
  by (simp add: MIN_BOTH_PRESENT_def scenario_record_def)

text \<open>
  Claim C1. In every record that \<^verbatim>\<open>labels_compute_pair\<close> emits the four count buckets
  add up to \<^verbatim>\<open>total_games\<close> and the four win buckets to \<^verbatim>\<open>total_wins\<close> (in the
  \<^verbatim>\<open>uint64_t\<close> arithmetic of the code's own comparison), the six buckets derived by
  subtraction are non-negative as the \<^verbatim>\<open>int64_t\<close> values the code computed, and
  \<open>n11\<close> and \<open>w11\<close> are the unsigned counts of the pair.
\<close>

theorem labels_compute_pair_buckets:
  assumes "snd (labels_compute_pair ctx a b) = Inr r"
  shows "n11 r + n10 r + n01 r + n00 r = total_games ctx \<and>
         w11 r + w10 r + w01 r + w00 r = total_wins ctx \<and>
         0 \<le> sint (n10 r) \<and> 0 \<le> sint (n01 r) \<and> 0 \<le> sint (n00 r) \<and>
         0 \<le> sint (w10 r) \<and> 0 \<le> sint (w01 r) \<and> 0 \<le> sint (w00 r) \<and>
         0 \<le> uint (n11 r) \<and> 0 \<le> uint (w11 r)"
proof -
  have "\<not> (hm_lookup (card_stats ctx) a = None \<or> hm_lookup (card_stats ctx) b = None \<or>
           hm_lookup (pair_stats ctx) (pair_key a b) = None)"
  proof
    assume "hm_lookup (card_stats ctx) a = None \<or> hm_lookup (card_stats ctx) b = None \<or>
           hm_lookup (pair_stats ctx) (pair_key a b) = None"
    from labels_compute_pair_absent [OF this] assms show False by simp
  qed
  then obtain n_a w_a n_b w_b n_ab w_ab where
    l: "hm_lookup (card_stats ctx) a = Some (n_a, w_a)"
       "hm_lookup (card_stats ctx) b = Some (n_b, w_b)"
       "hm_lookup (pair_stats ctx) (pair_key a b) = Some (n_ab, w_ab)"
    by auto
  from assms show ?thesis
    unfolding labels_compute_pair_found [OF l]
    by (auto split: if_splits)
qed

theorem labels_compute_pair_buckets_witness:
  "snd (labels_compute_pair scenario_ctx 1 2) = Inr scenario_record \<and>
   (n11 scenario_record + n10 scenario_record + n01 scenario_record + n00 scenario_record
      = total_games scenario_ctx \<and>
    w11 scenario_record + w10 scenario_record + w01 scenario_record + w00 scenario_record
      = total_wins scenario_ctx \<and>
    0 \<le> sint (n10 scenario_record) \<and> 0 \<le> sint (n01 scenario_record) \<and>
    0 \<le> sint (n00 scenario_record) \<and>
    0 \<le> sint (w10 scenario_record) \<and> 0 \<le> sint (w01 scenario_record) \<and>
    0 \<le> sint (w00 scenario_record) \<and>
    0 \<le> uint (n11 scenario_record) \<and> 0 \<le> uint (w11 scenario_record))"
  by (rule conjI [OF scenario_result labels_compute_pair_buckets [OF scenario_result]])

text \<open>
  Claim C5. \<^verbatim>\<open>labels_compute_pair\<close> fails when any of the three lookups finds nothing
  and when the pair count is below \<^verbatim>\<open>MIN_BOTH_PRESENT\<close>, which is 500; for a pair that
  passes these gates, the win-count checks and the sign checks of the six buckets, it
  succeeds and the record holds the two ids, the eight buckets, their smoothed
  probabilities and the synergy delta. (The check of the bucket totals cannot fail.)
\<close>

theorem labels_compute_pair_gates:
  "MIN_BOTH_PRESENT = 500 \<and>
   (hm_lookup (card_stats ctx) a = None \<or> hm_lookup (card_stats ctx) b = None \<or>
    hm_lookup (pair_stats ctx) (pair_key a b) = None \<longrightarrow>
      snd (labels_compute_pair ctx a b) = Inl NotFound) \<and>
   (hm_lookup (card_stats ctx) a = Some (n_a, w_a) \<and>
    hm_lookup (card_stats ctx) b = Some (n_b, w_b) \<and>
    hm_lookup (pair_stats ctx) (pair_key a b) = Some (n_ab, w_ab) \<longrightarrow>
      (n_ab < MIN_BOTH_PRESENT \<longrightarrow>
         snd (labels_compute_pair ctx a b) = Inl BelowThreshold) \<and>
      (MIN_BOTH_PRESENT \<le> n_ab \<and>
       total_wins ctx \<le> total_games ctx \<and> w_a \<le> n_a \<and> w_b \<le> n_b \<and> w_ab \<le> n_ab \<and>
       0 \<le> sint (n_a - n_ab) \<and> 0 \<le> sint (n_b - n_ab) \<and>
       0 \<le> sint (total_games ctx - n_a - n_b + n_ab) \<and>
       0 \<le> sint (w_a - w_ab) \<and> 0 \<le> sint (w_b - w_ab) \<and>
       0 \<le> sint (total_wins ctx - w_a - w_b + w_ab) \<longrightarrow>
         snd (labels_compute_pair ctx a b) =
           Inr \<lparr>card_a = a, card_b = b,
               n11 = n_ab, w11 = w_ab, n10 = n_a - n_ab, w10 = w_a - w_ab,
               n01 = n_b - n_ab, w01 = w_b - w_ab,
               n00 = total_games ctx - n_a - n_b + n_ab,
               w00 = total_wins ctx - w_a - w_b + w_ab,
               p11 = labels_smooth_prob w_ab n_ab,
               p10 = labels_smooth_prob (w_a - w_ab) (n_a - n_ab),
               p01 = labels_smooth_prob (w_b - w_ab) (n_b - n_ab),
               p00 = labels_smooth_prob (total_wins ctx - w_a - w_b + w_ab)
                       (total_games ctx - n_a - n_b + n_ab),
               syn_delta =
                  dadd (dsub (dsub (labels_smooth_prob w_ab n_ab)
                                (labels_smooth_prob (w_a - w_ab) (n_a - n_ab)))
                          (labels_smooth_prob (w_b - w_ab) (n_b - n_ab)))
                    (labels_smooth_prob (total_wins ctx - w_a - w_b + w_ab)
                       (total_games ctx - n_a - n_b + n_ab))\<rparr>))"
proof (intro conjI impI)
  show "MIN_BOTH_PRESENT = 500" by (simp add: MIN_BOTH_PRESENT_def)
next
  assume "hm_lookup (card_stats ctx) a = None \<or> hm_lookup (card_stats ctx) b = None \<or>
    hm_lookup (pair_stats ctx) (pair_key a b) = None"
  then show "snd (labels_compute_pair ctx a b) = Inl NotFound"
    by (rule labels_compute_pair_absent)
next
  assume l: "hm_lookup (card_stats ctx) a = Some (n_a, w_a) \<and>
    hm_lookup (card_stats ctx) b = Some (n_b, w_b) \<and>
    hm_lookup (pair_stats ctx) (pair_key a b) = Some (n_ab, w_ab)"
  assume "n_ab < MIN_BOTH_PRESENT"
  with l show "snd (labels_compute_pair ctx a b) = Inl BelowThreshold"
    by (simp add: labels_compute_pair_found)
next
  assume l: "hm_lookup (card_stats ctx) a = Some (n_a, w_a) \<and>
    hm_lookup (card_stats ctx) b = Some (n_b, w_b) \<and>
    hm_lookup (pair_stats ctx) (pair_key a b) = Some (n_ab, w_ab)"
  assume ok: "MIN_BOTH_PRESENT \<le> n_ab \<and>
       total_wins ctx \<le> total_games ctx \<and> w_a \<le> n_a \<and> w_b \<le> n_b \<and> w_ab \<le> n_ab \<and>
       0 \<le> sint (n_a - n_ab) \<and> 0 \<le> sint (n_b - n_ab) \<and>
       0 \<le> sint (total_games ctx - n_a - n_b + n_ab) \<and>
       0 \<le> sint (w_a - w_ab) \<and> 0 \<le> sint (w_b - w_ab) \<and>
       0 \<le> sint (total_wins ctx - w_a - w_b + w_ab)"
  from l have l': "hm_lookup (card_stats ctx) a = Some (n_a, w_a)"
    "hm_lookup (card_stats ctx) b = Some (n_b, w_b)"
    "hm_lookup (pair_stats ctx) (pair_key a b) = Some (n_ab, w_ab)" by simp_all
  from ok show "snd (labels_compute_pair ctx a b) =
           Inr \<lparr>card_a = a, card_b = b,
               n11 = n_ab, w11 = w_ab, n10 = n_a - n_ab, w10 = w_a - w_ab,
               n01 = n_b - n_ab, w01 = w_b - w_ab,
               n00 = total_games ctx - n_a - n_b + n_ab,
               w00 = total_wins ctx - w_a - w_b + w_ab,
               p11 = labels_smooth_prob w_ab n_ab,
               p10 = labels_smooth_prob (w_a - w_ab) (n_a - n_ab),
               p01 = labels_smooth_prob (w_b - w_ab) (n_b - n_ab),
               p00 = labels_smooth_prob (total_wins ctx - w_a - w_b + w_ab)
                       (total_games ctx - n_a - n_b + n_ab),
               syn_delta =
                  dadd (dsub (dsub (labels_smooth_prob w_ab n_ab)
                                (labels_smooth_prob (w_a - w_ab) (n_a - n_ab)))
                          (labels_smooth_prob (w_b - w_ab) (n_b - n_ab)))
                    (labels_smooth_prob (total_wins ctx - w_a - w_b + w_ab)
                       (total_games ctx - n_a - n_b + n_ab))\<rparr>"
    unfolding labels_compute_pair_found [OF l'] by (simp add: not_less)
qed

theorem labels_compute_pair_gates_witness:
  "snd (labels_compute_pair scenario_ctx 4 1) = Inl NotFound \<and>
   snd (labels_compute_pair scenario_ctx 1 3) = Inl BelowThreshold \<and>
   snd (labels_compute_pair scenario_ctx 1 2) = Inr scenario_record"
proof -
  have "snd (labels_compute_pair scenario_ctx 4 1) = Inl NotFound"
    using labels_compute_pair_gates [where ctx = scenario_ctx and a = 4 and b = 1] scenario_lookups(4) by simp
  moreover have "snd (labels_compute_pair scenario_ctx 1 3) = Inl BelowThreshold"
    using labels_compute_pair_gates [where ctx = scenario_ctx and a = 1 and b = 3
        and n_a = 600 and w_a = 360 and n_b = 400 and w_b = 250 and n_ab = 100 and w_ab = 60]
      scenario_lookups(1,3,6)
    by (simp add: MIN_BOTH_PRESENT_def)
  moreover have "snd (labels_compute_pair scenario_ctx 1 2) = Inr scenario_record"
    using labels_compute_pair_gates [where ctx = scenario_ctx and a = 1 and b = 2
        and n_a = 600 and w_a = 360 and n_b = 550 and w_b = 350 and n_ab = 510 and w_ab = 340]
      scenario_lookups(1,2,5) scenario_totals
    by (simp add: MIN_BOTH_PRESENT_def scenario_record_def)
  ultimately show ?thesis by blast
qed

text \<open>
  Claim C6. \<^verbatim>\<open>labels_compute_pair\<close> returns the context as it was. It fails whenever
  \<^verbatim>\<open>total_wins\<close> exceeds \<^verbatim>\<open>total_games\<close>; and with the three lookups \<open>(n_a, w_a)\<close>,
  \<open>(n_b, w_b)\<close>, \<open>(n_ab, w_ab)\<close> at hand it fails whenever a win count exceeds its game
  count or one of the six derived buckets, as the \<^verbatim>\<open>int64_t\<close> value the code computes,
  is negative: with the threshold error below 500 pair games, else with the
  invalid-win-counts error, else with the negative-buckets error.
\<close>

theorem labels_compute_pair_rejects:
  "fst (labels_compute_pair ctx a b) = ctx \<and>
   (total_wins ctx > total_games ctx \<longrightarrow> isl (snd (labels_compute_pair ctx a b))) \<and>
   (hm_lookup (card_stats ctx) a = Some (n_a, w_a) \<and>
    hm_lookup (card_stats ctx) b = Some (n_b, w_b) \<and>
    hm_lookup (pair_stats ctx) (pair_key a b) = Some (n_ab, w_ab) \<and>
    (total_wins ctx > total_games ctx \<or> w_a > n_a \<or> w_b > n_b \<or> w_ab > n_ab \<or>
     sint (n_a - n_ab) < 0 \<or> sint (n_b - n_ab) < 0 \<or>
     sint (total_games ctx - n_a - n_b + n_ab) < 0 \<or>
     sint (w_a - w_ab) < 0 \<or> sint (w_b - w_ab) < 0 \<or>
     sint (total_wins ctx - w_a - w_b + w_ab) < 0) \<longrightarrow>
      snd (labels_compute_pair ctx a b) =
        (if n_ab < MIN_BOTH_PRESENT then Inl BelowThreshold
         else if total_wins ctx > total_games ctx \<or> w_a > n_a \<or> w_b > n_b \<or> w_ab > n_ab
         then Inl InvalidWinCounts
         else Inl NegativeBuckets))"
proof (intro conjI impI)
  show "fst (labels_compute_pair ctx a b) = ctx" by (rule labels_compute_pair_fst)
next
  assume wn: "total_wins ctx > total_games ctx"
  show "isl (snd (labels_compute_pair ctx a b))"
  proof (cases "hm_lookup (card_stats ctx) a = None \<or> hm_lookup (card_stats ctx) b = None \<or>
           hm_lookup (pair_stats ctx) (pair_key a b) = None")
    case True
    then show ?thesis by (simp add: labels_compute_pair_absent)
  next
    case False
    then obtain x y x' y' x'' y'' where
      l: "hm_lookup (card_stats ctx) a = Some (x, y)"
         "hm_lookup (card_stats ctx) b = Some (x', y')"
         "hm_lookup (pair_stats ctx) (pair_key a b) = Some (x'', y'')"
      by auto
    show ?thesis unfolding labels_compute_pair_found [OF l] using wn by simp
  qed
next
  assume h: "hm_lookup (card_stats ctx) a = Some (n_a, w_a) \<and>
    hm_lookup (card_stats ctx) b = Some (n_b, w_b) \<and>
    hm_lookup (pair_stats ctx) (pair_key a b) = Some (n_ab, w_ab) \<and>
    (total_wins ctx > total_games ctx \<or> w_a > n_a \<or> w_b > n_b \<or> w_ab > n_ab \<or>
     sint (n_a - n_ab) < 0 \<or> sint (n_b - n_ab) < 0 \<or>
     sint (total_games ctx - n_a - n_b + n_ab) < 0 \<or>
     sint (w_a - w_ab) < 0 \<or> sint (w_b - w_ab) < 0 \<or>
     sint (total_wins ctx - w_a - w_b + w_ab) < 0)"
  then have l: "hm_lookup (card_stats ctx) a = Some (n_a, w_a)"
    "hm_lookup (card_stats ctx) b = Some (n_b, w_b)"
    "hm_lookup (pair_stats ctx) (pair_key a b) = Some (n_ab, w_ab)" by simp_all
  from h show "snd (labels_compute_pair ctx a b) =
        (if n_ab < MIN_BOTH_PRESENT then Inl BelowThreshold
         else if total_wins ctx > total_games ctx \<or> w_a > n_a \<or> w_b > n_b \<or> w_ab > n_ab
         then Inl InvalidWinCounts
         else Inl NegativeBuckets)"
    unfolding labels_compute_pair_found [OF l] by auto
qed

theorem labels_compute_pair_rejects_witness:
  "fst (labels_compute_pair scenario_bad_ctx 1 2) = scenario_bad_ctx \<and>
   snd (labels_compute_pair scenario_bad_ctx 1 2) = Inl NegativeBuckets \<and>
   isl (snd (labels_compute_pair (scenario_ctx\<lparr>total_wins := 2000\<rparr>) 1 2))"
proof -
  have "snd (labels_compute_pair scenario_bad_ctx 1 2) = Inl NegativeBuckets"
    using labels_compute_pair_rejects [where ctx = scenario_bad_ctx and a = 1 and b = 2
        and n_a = 500 and w_a = 300 and n_b = 400 and w_b = 250 and n_ab = 510 and w_ab = 340]
      scenario_bad_lookups scenario_totals
    by (simp add: MIN_BOTH_PRESENT_def)
  moreover have "fst (labels_compute_pair scenario_bad_ctx 1 2) = scenario_bad_ctx"
    using labels_compute_pair_rejects [where ctx = scenario_bad_ctx and a = 1 and b = 2] by simp
  moreover have "isl (snd (labels_compute_pair (scenario_ctx\<lparr>total_wins := 2000\<rparr>) 1 2))"
    using labels_compute_pair_rejects [where ctx = "scenario_ctx\<lparr>total_wins := 2000\<rparr>"
        and a = 1 and b = 2]
    by (simp add: scenario_ctx_def)
  ultimately show ?thesis by blast
qed

section \<open>Lookup after insertion\<close>

lemma table16_inv: "hm_inv table16" and table16_empty: "hm_lookup table16 = Map.empty"
proof -
  have "(16::nat) = 2 ^ 4" by simp
  from hm_inv_fresh [OF order_refl this] hm_lookup_fresh [OF order_refl this]
  show "hm_inv table16" and "hm_lookup table16 = Map.empty"
    by (simp_all add: table16_def)
qed

lemma any_alloc_grows [simp]: "grows_ok any_alloc m"
  by (simp add: grows_ok_def any_alloc_def)

lemma valid_key_small [simp]: "valid_key 1" "valid_key 7" "valid_key 13"
  by (simp_all add: valid_key_def HASH_EMPTY_KEY_def HASH_TOMBSTONE_def)

text \<open>
  Claim C9, as stated, fails when the table has to grow and the allocation fails: the
  table of capacity 16 holds twelve keys after twelve puts, the put of a thirteenth key
  returns \<^verbatim>\<open>NULL\<close> and leaves the table as it was, and the lookup of that key finds
  nothing; \<^verbatim>\<open>hashmap_increment\<close> of that key does nothing.
\<close>

theorem hashmap_put_growth_fails:
  "hashmap_init small_alloc 16 = Some (Some table16) \<and>
   run_ops small_alloc twelve_puts table16 = Inr table12 \<and>
   valid_key 13 \<and>
   hashmap_put small_alloc table12 13 = Inr (table12, None) \<and>
   hashmap_get table12 13 = None \<and>
   hashmap_increment small_alloc table12 13 True = Inr table12"
proof -
  have "hashmap_get table12 13 = None"
    by (simp add: table12_def hm_eval key_entry_def)
  moreover have "hashmap_increment small_alloc table12 13 True = Inr table12"
    by (simp add: hashmap_increment_def table12_put)
  ultimately show ?thesis
    using table16_init table12_reached table12_put by simp
qed

text \<open>
  Claim C9, amended. On a well-formed map, for a valid key, when the allocation of the
  growth that the put may need succeeds: \<^verbatim>\<open>hashmap_put\<close> returns an entry, a
  \<^verbatim>\<open>hashmap_get\<close> of the key on the map after the put returns the same entry, the entry
  holds the key, and its counts are zero if the key was absent and the counts it had
  otherwise. If the key was absent, \<^verbatim>\<open>hashmap_increment\<close> with a win and then (its
  growth allocation succeeding too) without leave the entry of the key with
  \<open>n = 2\<close> and \<open>w = 1\<close>.
\<close>

theorem hashmap_get_after_put:
  assumes "hm_inv m" and "valid_key k" and "grows_ok alloc m"
  shows "(\<exists>M p. hashmap_put alloc m k = Inr (M, Some p) \<and>
            hashmap_get M k = Some p \<and> e_key (entries M ! p) = k \<and>
            (e_n (entries M ! p), e_w (entries M ! p)) =
              (case hm_lookup m k of None \<Rightarrow> (0, 0) | Some v \<Rightarrow> v)) \<and>
         (hm_lookup m k = None \<longrightarrow>
            (\<exists>M1. hashmap_increment alloc m k True = Inr M1 \<and>
               (grows_ok alloc M1 \<longrightarrow>
                  (\<exists>M2 p. hashmap_increment alloc M1 k False = Inr M2 \<and>
                     hashmap_get M2 k = Some p \<and>
                     e_n (entries M2 ! p) = 2 \<and> e_w (entries M2 ! p) = 1))))"
proof (intro conjI impI)
  from hashmap_put_spec [OF assms]
  obtain M p where M: "hashmap_put alloc m k = Inr (M, Some p)" "hm_inv M"
    "hashmap_get M k = Some p"
    "hm_lookup M =
       (hm_lookup m)(k \<mapsto> (case hm_lookup m k of None \<Rightarrow> (0, 0) | Some v \<Rightarrow> v))"
    by blast
  from M(3) have "e_key (entries M ! p) = k" by (simp add: hashmap_get_SomeD)
  moreover have "(e_n (entries M ! p), e_w (entries M ! p)) =
              (case hm_lookup m k of None \<Rightarrow> (0, 0) | Some v \<Rightarrow> v)"
  proof -
    have "hm_lookup M k = Some (e_n (entries M ! p), e_w (entries M ! p))"
      using M(3) by (simp add: hm_lookup_def)
    moreover have "hm_lookup M k =
        Some (case hm_lookup m k of None \<Rightarrow> (0, 0) | Some v \<Rightarrow> v)"
      by (simp add: M(4))
    ultimately show ?thesis by simp
  qed
  ultimately show "\<exists>M p. hashmap_put alloc m k = Inr (M, Some p) \<and>
            hashmap_get M k = Some p \<and> e_key (entries M ! p) = k \<and>
            (e_n (entries M ! p), e_w (entries M ! p)) =
              (case hm_lookup m k of None \<Rightarrow> (0, 0) | Some v \<Rightarrow> v)"
    using M(1,3) by blast
next
  assume absent: "hm_lookup m k = None"
  from hashmap_increment_spec [OF assms, of True] absent
  obtain M1 where M1: "hashmap_increment alloc m k True = Inr M1" "hm_inv M1"
    "hm_lookup M1 k = Some (1, 1)"
    by auto
  have "\<exists>M2 p. hashmap_increment alloc M1 k False = Inr M2 \<and>
                     hashmap_get M2 k = Some p \<and>
                     e_n (entries M2 ! p) = 2 \<and> e_w (entries M2 ! p) = 1"
    if ok: "grows_ok alloc M1"
  proof -
    from hashmap_increment_spec [OF M1(2) assms(2) ok, of False] M1(3)
    obtain M2 where M2: "hashmap_increment alloc M1 k False = Inr M2"
      "hm_lookup M2 k = Some (2, 1)"
      by auto
    from hm_lookup_SomeD [OF M2(2)] M2(1) show ?thesis by blast
  qed
  with M1(1) show "\<exists>M1. hashmap_increment alloc m k True = Inr M1 \<and>
               (grows_ok alloc M1 \<longrightarrow>
                  (\<exists>M2 p. hashmap_increment alloc M1 k False = Inr M2 \<and>
                     hashmap_get M2 k = Some p \<and>
                     e_n (entries M2 ! p) = 2 \<and> e_w (entries M2 ! p) = 1))"
    by blast
qed

theorem hashmap_get_after_put_witness:
  "hm_inv table16 \<and> valid_key 7 \<and> grows_ok any_alloc table16 \<and>
   hm_lookup table16 7 = None \<and>
   (\<exists>M p. hashmap_put any_alloc table16 7 = Inr (M, Some p) \<and>
      hashmap_get M 7 = Some p \<and> e_key (entries M ! p) = 7 \<and>
      (e_n (entries M ! p), e_w (entries M ! p)) = (0, 0)) \<and>
   (\<exists>M1 M2 p. hashmap_increment any_alloc table16 7 True = Inr M1 \<and>
      hashmap_increment any_alloc M1 7 False = Inr M2 \<and>
      hashmap_get M2 7 = Some p \<and> e_n (entries M2 ! p) = 2 \<and> e_w (entries M2 ! p) = 1)"
  using hashmap_get_after_put [OF table16_inv valid_key_small(2) any_alloc_grows]
    table16_inv
  by (simp add: table16_empty)

section \<open>Wins and games of an entry\<close>

lemma count_list_replicate [simp]: "count_list (replicate j x) x = j"
  by (induction j) simp_all

lemma any_alloc_all: "any_alloc c"
  by (simp add: any_alloc_def)

lemma wrap_count_word: "(1 :: u64) + of_nat wrap_count = 0"
proof -
  have "Suc wrap_count = 2 ^ 64" by (simp add: wrap_count_def)
  then have "(of_nat (Suc wrap_count) :: u64) = of_nat (2 ^ 64)" by (simp only:)
  also have "\<dots> = 0" by simp
  finally show ?thesis by simp
qed

text \<open>
  Claim C8, as stated, fails once a counter wraps: on the table that \<^verbatim>\<open>hashmap_init\<close>
  makes, one increment of key 1 with a win and \<open>2 ^ 64 - 1\<close> increments without leave
  the live entry of key 1 with \<open>n = 0\<close> and \<open>w = 1\<close>.
\<close>

theorem counter_wraps:
  "hashmap_init any_alloc 16 = Some (Some table16) \<and>
   (\<exists>M p. run_ops any_alloc
             (Increment 1 True # replicate wrap_count (Increment 1 False)) table16 = Inr M \<and>
      p < length (entries M) \<and> live (entries M ! p) \<and> e_key (entries M ! p) = 1 \<and>
      e_n (entries M ! p) = 0 \<and> e_w (entries M ! p) = 1 \<and>
      \<not> e_w (entries M ! p) \<le> e_n (entries M ! p))"
proof -
  have init: "hashmap_init any_alloc 16 = Some (Some table16)"
    by (simp add: hashmap_init_def init_cap_loop.simps any_alloc_def table16_def)
  from hashmap_increment_spec [OF table16_inv valid_key_small(1) any_alloc_grows, of True]
  obtain M1 where M1: "hashmap_increment any_alloc table16 1 True = Inr M1" "hm_inv M1"
    "hm_lookup M1 1 = Some (1, 1)"
    by (auto simp: table16_empty)
  have "\<exists>M. incr_all any_alloc M1 (replicate wrap_count 1) False = Inr M \<and> hm_inv M \<and>
           (\<forall>k. hm_lookup M k =
              bump (if valid_key k then count_list (replicate wrap_count 1) k else 0) False
                (hm_lookup M1 k))"
    by (rule incr_all_spec) (simp_all add: M1(2) any_alloc_all)
  then obtain M where M: "incr_all any_alloc M1 (replicate wrap_count 1) False = Inr M" "hm_inv M"
    "hm_lookup M 1 = bump wrap_count False (hm_lookup M1 1)"
    by auto
  have l: "hm_lookup M 1 = Some (0, 1)"
    using M(3) M1(3) wrap_count_word by (simp add: bump_def)
  then obtain p where p: "hashmap_get M 1 = Some p" "e_n (entries M ! p) = 0"
    "e_w (entries M ! p) = 1"
    using hm_lookup_SomeD by blast
  from p(1) have q: "p < capacity M" "e_key (entries M ! p) = 1"
    by (simp_all add: hashmap_get_SomeD)
  have "replicate wrap_count (Increment 1 False) =
        map (\<lambda>k. Increment k False) (replicate wrap_count 1)"
    by simp
  then have "run_ops any_alloc
             (Increment 1 True # replicate wrap_count (Increment 1 False)) table16 = Inr M"
    using M1(1) M(1) by (simp only: run_ops.simps run_op.simps run_ops_increments sum.case)
  moreover have "p < length (entries M)" using q(1) M(2) by (simp add: hm_inv_length)
  moreover have "live (entries M ! p)" using q(2) by (simp add: live_def)
  ultimately show ?thesis using init p(2,3) q(2) by auto
qed

text \<open>
  Claim C8, amended. In every map reached from \<^verbatim>\<open>hashmap_init\<close> by fewer than
  \<open>2 ^ 64\<close> calls of \<^verbatim>\<open>hashmap_put\<close> and \<^verbatim>\<open>hashmap_increment\<close>, with any allocator and
  so with any resizes or failed resizes on the way, the calls all return and every live
  entry has \<open>w \<le> n\<close>.
\<close>

theorem wins_le_games:
  assumes "hashmap_init alloc initial_capacity = Some (Some m0)"
    and "length ops < 2 ^ 64"
  shows "\<exists>M. run_ops alloc ops m0 = Inr M \<and>
           (\<forall>e \<in> set (entries M). live e \<longrightarrow> e_w e \<le> e_n e)"
proof -
  from hm_inv_init [OF assms(1)] have inv: "hm_inv m0" and e: "hm_lookup m0 = Map.empty"
    by simp_all
  have "\<exists>M. run_ops alloc ops m0 = Inr M \<and> hm_inv M \<and>
           (\<forall>k a b. hm_lookup M k = Some (a, b) \<longrightarrow> b \<le> a \<and> unat a \<le> 0 + length ops)"
  proof (rule run_ops_counts [OF inv])
    show "b \<le> a \<and> unat a \<le> 0" if "hm_lookup m0 k = Some (a, b)" for k a b
      using that e by simp
    show "0 + length ops < 2 ^ 64" using assms(2) by simp
  qed
  then obtain M where M: "run_ops alloc ops m0 = Inr M" "hm_inv M"
    "\<forall>k a b. hm_lookup M k = Some (a, b) \<longrightarrow> b \<le> a \<and> unat a \<le> 0 + length ops"
    by auto
  have "e_w e \<le> e_n e" if "e \<in> set (entries M)" "live e" for e
    using hm_lookup_entry [OF M(2) that] M(3) by blast
  with M(1) show ?thesis by blast
qed

theorem wins_le_games_witness:
  "hashmap_init any_alloc 16 = Some (Some table16) \<and>
   length [Increment 1 True, Put 7, Increment 1 False] < (2::nat) ^ 64 \<and>
   (\<exists>M. run_ops any_alloc [Increment 1 True, Put 7, Increment 1 False] table16 = Inr M \<and>
      (\<forall>e \<in> set (entries M). live e \<longrightarrow> e_w e \<le> e_n e))"
proof -
  have init: "hashmap_init any_alloc 16 = Some (Some table16)"
    by (simp add: hashmap_init_def init_cap_loop.simps any_alloc_def table16_def)
  have len: "length [Increment 1 True, Put 7, Increment 1 False] < (2::nat) ^ 64" by simp
  from wins_le_games [OF init len] init len show ?thesis by blast
qed

section \<open>Processing a game\<close>

subsection \<open>The list of distinct ids\<close>

lemma dedup_loop_distinct: "distinct u \<Longrightarrow> distinct (dedup_loop cs u)"
  by (induction cs arbitrary: u) auto

lemma dedup_loop_subset: "set (dedup_loop cs u) \<subseteq> set u \<union> set cs"
proof (induction cs arbitrary: u)
  case Nil
  then show ?case by simp
next
  case (Cons c cs)
  have "set (dedup_loop cs (if c \<in> set u then u else u @ [c])) \<subseteq>
        set (if c \<in> set u then u else u @ [c]) \<union> set cs"
    by (rule Cons.IH)
  then show ?case by auto
qed

text \<open>With at most \<^verbatim>\<open>MAX_GAME_CARDS\<close> distinct ids the loop keeps every id.\<close>

lemma dedup_loop_set:
  assumes "distinct u" and "card (set u \<union> set cs) \<le> MAX_GAME_CARDS"
  shows "set (dedup_loop cs u) = set u \<union> set cs"
  using assms
proof (induction cs arbitrary: u)
  case Nil
  then show ?case by simp
next
  case (Cons c cs)
  show ?case
  proof (cases "length u < MAX_GAME_CARDS")
    case True
    let ?u' = "if c \<in> set u then u else u @ [c]"
    have d: "distinct ?u'" using Cons.prems(1) by simp
    have s: "set ?u' \<union> set cs = set u \<union> set (c # cs)" by auto
    with Cons.prems(2) have "card (set ?u' \<union> set cs) \<le> MAX_GAME_CARDS" by simp
    from Cons.IH [OF d this] s True show ?thesis by simp
  next
    case False
    have "card (set u) = length u" using Cons.prems(1) by (rule distinct_card)
    moreover have "card (set u) \<le> card (set u \<union> set (c # cs))"
      by (rule card_mono) auto
    ultimately have "card (set u \<union> set (c # cs)) = card (set u)"
      using False Cons.prems(2) by simp
    then have "set u \<union> set (c # cs) = set u"
      by (metis List.finite_set Un_upper1 card_subset_eq finite_UnI)
    with False show ?thesis by simp
  qed
qed

text \<open>On a list without repetitions the loop keeps the first \<^verbatim>\<open>MAX_GAME_CARDS\<close> ids.\<close>

lemma dedup_loop_take:
  "distinct (u @ cs) \<Longrightarrow> dedup_loop cs u = u @ take (MAX_GAME_CARDS - length u) cs"
proof (induction cs arbitrary: u)
  case Nil
  then show ?case by simp
next
  case (Cons c cs)
  show ?case
  proof (cases "length u < MAX_GAME_CARDS")
    case True
    have c: "c \<notin> set u" using Cons.prems by simp
    have "distinct ((u @ [c]) @ cs)" using Cons.prems by simp
    from Cons.IH [OF this] have
      "dedup_loop cs (u @ [c]) = (u @ [c]) @ take (MAX_GAME_CARDS - length (u @ [c])) cs" .
    moreover have "MAX_GAME_CARDS - length u = Suc (MAX_GAME_CARDS - length (u @ [c]))"
      using True by simp
    ultimately show ?thesis using True c by simp
  next
    case False
    then show ?thesis by simp
  qed
qed

text \<open>
  In general the loop keeps the first \<^verbatim>\<open>MAX_GAME_CARDS\<close> distinct ids, in the order of
  their first occurrences.
\<close>

lemma first_distinct_set: "set (first_distinct cs) = set cs"
  by (induction cs rule: first_distinct.induct) auto

lemma first_distinct_distinct: "distinct (first_distinct cs)"
  by (induction cs rule: first_distinct.induct) (auto simp: first_distinct_set)

lemma removeAll_filter_not_in:
  "removeAll c (filter (\<lambda>x. x \<notin> set u) cs) = filter (\<lambda>x. x \<notin> set (u @ [c])) cs"
  by (induction cs) auto

lemma dedup_loop_first_distinct:
  assumes "length u \<le> MAX_GAME_CARDS"
  shows "dedup_loop cs u
         = take MAX_GAME_CARDS (u @ first_distinct (filter (\<lambda>x. x \<notin> set u) cs))"
  using assms
proof (induction cs arbitrary: u)
  case Nil
  then show ?case by simp
next
  case (Cons c cs)
  show ?case
  proof (cases "length u < MAX_GAME_CARDS")
    case False
    with Cons.prems show ?thesis by simp
  next
    case True
    show ?thesis
    proof (cases "c \<in> set u")
      case in_u: True
      with True Cons.IH [OF Cons.prems] show ?thesis by simp
    next
      case new: False
      have "length (u @ [c]) \<le> MAX_GAME_CARDS" using True by simp
      from Cons.IH [OF this] new True show ?thesis
        by (simp add: removeAll_filter_not_in)
    qed
  qed
qed

lemma dedup_loop_first: "dedup_loop cs [] = take MAX_GAME_CARDS (first_distinct cs)"
  using dedup_loop_first_distinct [of "[]" cs] by simp

lemma first_distinct_few:
  assumes "card (set cs) \<le> MAX_GAME_CARDS"
  shows "take MAX_GAME_CARDS (first_distinct cs) = first_distinct cs"
proof -
  have "length (first_distinct cs) = card (set cs)"
    using distinct_card [OF first_distinct_distinct, of cs] by (simp add: first_distinct_set)
  with assms show ?thesis by simp
qed

subsection \<open>The keys of the pair loop\<close>

lemma count_list_map_distinct:
  "distinct xs \<Longrightarrow> count_list (map f xs) p = card {b \<in> set xs. f b = p}"
proof (induction xs)
  case Nil
  then show ?case by simp
next
  case (Cons x xs)
  have fin: "finite {b \<in> set xs. f b = p}" by simp
  have nx: "x \<notin> {b \<in> set xs. f b = p}" using Cons.prems by simp
  show ?case
  proof (cases "f x = p")
    case True
    then have "{b \<in> set (x # xs). f b = p} = insert x {b \<in> set xs. f b = p}" by auto
    with Cons fin nx True show ?thesis by simp
  next
    case False
    then have "{b \<in> set (x # xs). f b = p} = {b \<in> set xs. f b = p}" by auto
    with Cons False show ?thesis by simp
  qed
qed

lemma finite_pairs_with_key: "finite S \<Longrightarrow> finite (pairs_with_key S p)"
proof -
  assume "finite S"
  then have "finite (S \<times> S)" by simp
  moreover have "pairs_with_key S p \<subseteq> S \<times> S" by (auto simp: pairs_with_key_def)
  ultimately show ?thesis by (rule rev_finite_subset)
qed

lemma pairs_with_key_insert:
  assumes "a \<notin> R" and "finite R"
  shows "card (pairs_with_key (insert a R) p) =
         card {b \<in> R. pair_key a b = p} + card (pairs_with_key R p)"
proof -
  let ?B = "{b \<in> R. pair_key a b = p}"
  let ?f = "\<lambda>b. if a < b then (a, b) else (b, a)"
  have split: "pairs_with_key (insert a R) p = ?f ` ?B \<union> pairs_with_key R p"
  proof (intro set_eqI iffI)
    fix z assume z: "z \<in> pairs_with_key (insert a R) p"
    obtain x y where xy: "z = (x, y)" by (cases z)
    with z have h: "x \<in> insert a R" "y \<in> insert a R" "x < y" "pair_key x y = p"
      by (simp_all add: pairs_with_key_def)
    show "z \<in> ?f ` ?B \<union> pairs_with_key R p"
    proof (cases "x = a")
      case True
      with h have "y \<in> ?B" "z = ?f y" using xy by auto
      then have "z \<in> ?f ` ?B" by (rule image_eqI [rotated])
      then show ?thesis by simp
    next
      case xa: False
      show ?thesis
      proof (cases "y = a")
        case True
        with h xa have "x \<in> R" "pair_key a x = p" "\<not> a < x"
          by (auto simp: pair_key_commute)
        then have "x \<in> ?B" "z = ?f x" using True xy by auto
        then have "z \<in> ?f ` ?B" by (rule image_eqI [rotated])
        then show ?thesis by simp
      next
        case False
        with xa h xy show ?thesis by (simp add: pairs_with_key_def)
      qed
    qed
  next
    fix z assume "z \<in> ?f ` ?B \<union> pairs_with_key R p"
    then show "z \<in> pairs_with_key (insert a R) p"
    proof
      assume "z \<in> ?f ` ?B"
      then obtain b where b: "b \<in> R" "pair_key a b = p" "z = ?f b" by auto
      with assms(1) have "a \<noteq> b" by auto
      then have "a < b \<or> b < a" by auto
      with b show ?thesis by (auto simp: pairs_with_key_def pair_key_commute)
    next
      assume "z \<in> pairs_with_key R p"
      then show ?thesis by (auto simp: pairs_with_key_def)
    qed
  qed
  have inj: "inj_on ?f ?B"
    by (rule inj_onI) (auto split: if_splits)
  have disj: "?f ` ?B \<inter> pairs_with_key R p = {}"
    using assms(1) by (auto simp: pairs_with_key_def split: if_splits)
  have finB: "finite ?B" using assms(2) by simp
  have "card (pairs_with_key (insert a R) p) = card (?f ` ?B) + card (pairs_with_key R p)"
    unfolding split
    by (rule card_Un_disjoint) (use finB disj assms(2) in \<open>simp_all add: finite_pairs_with_key\<close>)
  also have "card (?f ` ?B) = card ?B" using inj by (rule card_image)
  finally show ?thesis .
qed

text \<open>
  The pair loop over a list without repetitions makes the key \<open>p\<close> once for every
  unordered pair of distinct ids that \<^verbatim>\<open>pair_key\<close> sends to \<open>p\<close>.
\<close>

lemma count_list_pair_keys:
  "distinct u \<Longrightarrow> count_list (pair_keys u) p = card (pairs_with_key (set u) p)"
proof (induction u)
  case Nil
  then show ?case by (simp add: pairs_with_key_def)
next
  case (Cons a rest)
  then have d: "distinct rest" and a: "a \<notin> set rest" by simp_all
  have "count_list (pair_keys (a # rest)) p =
        count_list (map (pair_key a) rest) p + count_list (pair_keys rest) p"
    by simp
  also have "\<dots> = card {b \<in> set rest. pair_key a b = p} + card (pairs_with_key (set rest) p)"
    using count_list_map_distinct [OF d] Cons.IH [OF d] by simp
  also have "\<dots> = card (pairs_with_key (insert a (set rest)) p)"
    using pairs_with_key_insert [OF a] by simp
  finally show ?case by simp
qed

subsection \<open>One game\<close>

lemma incr_all_total:
  assumes "hm_inv m"
  shows "\<exists>M. incr_all alloc m ks win = Inr M \<and> hm_inv M"
  using assms
proof (induction ks arbitrary: m)
  case Nil
  then show ?case by simp
next
  case (Cons k ks)
  from run_op_total [OF Cons.prems, of alloc "Increment k win"]
  obtain M1 where "hashmap_increment alloc m k win = Inr M1" "hm_inv M1" by auto
  with Cons.IH [of M1] show ?case by auto
qed

text \<open>
  \<^verbatim>\<open>labels_process_game\<close> on a context with well-formed tables returns, and counts the
  game; with an allocator that never fails it counts each valid key as often as the
  loops make it.
\<close>

lemma labels_process_game_spec:
  assumes "hm_inv (card_stats ctx)" and "hm_inv (pair_stats ctx)"
  shows "\<exists>ctx'. labels_process_game alloc ctx cs win = Inr ctx' \<and>
           total_games ctx' = total_games ctx + 1 \<and>
           total_wins ctx' = (if win then total_wins ctx + 1 else total_wins ctx) \<and>
           hm_inv (card_stats ctx') \<and> hm_inv (pair_stats ctx') \<and>
           ((\<forall>c. alloc c) \<longrightarrow>
              (\<forall>k. hm_lookup (card_stats ctx') k =
                 bump (if valid_key k then count_list (dedup_loop cs []) k else 0) win
                   (hm_lookup (card_stats ctx) k)) \<and>
              (\<forall>p. hm_lookup (pair_stats ctx') p =
                 bump (if valid_key p then count_list (pair_keys (dedup_loop cs [])) p else 0)
                   win (hm_lookup (pair_stats ctx) p)))"
proof (cases "cs = []")
  case True
  then show ?thesis using assms by (simp add: labels_process_game_def)
next
  case False
  let ?u = "dedup_loop cs []"
  show ?thesis
  proof (cases "\<forall>c. alloc c")
    case al: True
    have "\<exists>M. incr_all alloc (card_stats ctx) ?u win = Inr M \<and> hm_inv M \<and>
           (\<forall>k. hm_lookup M k =
              bump (if valid_key k then count_list ?u k else 0) win
                (hm_lookup (card_stats ctx) k))"
      by (rule incr_all_spec) (use assms al in simp_all)
    then obtain C where C: "incr_all alloc (card_stats ctx) ?u win = Inr C" "hm_inv C"
      "\<forall>k. hm_lookup C k =
              bump (if valid_key k then count_list ?u k else 0) win
                (hm_lookup (card_stats ctx) k)"
      by blast
    have "\<exists>M. incr_all alloc (pair_stats ctx) (pair_keys ?u) win = Inr M \<and> hm_inv M \<and>
           (\<forall>k. hm_lookup M k =
              bump (if valid_key k then count_list (pair_keys ?u) k else 0) win
                (hm_lookup (pair_stats ctx) k))"
      by (rule incr_all_spec) (use assms al in simp_all)
    then obtain P where P: "incr_all alloc (pair_stats ctx) (pair_keys ?u) win = Inr P"
      "hm_inv P"
      "\<forall>k. hm_lookup P k =
              bump (if valid_key k then count_list (pair_keys ?u) k else 0) win
                (hm_lookup (pair_stats ctx) k)"
      by blast
    from False C P show ?thesis
      by (simp add: labels_process_game_def Let_def)
  next
    case na: False
    from incr_all_total [OF assms(1), of alloc ?u win]
    obtain C where C: "incr_all alloc (card_stats ctx) ?u win = Inr C" "hm_inv C" by blast
    from incr_all_total [OF assms(2), of alloc "pair_keys ?u" win]
    obtain P where P: "incr_all alloc (pair_stats ctx) (pair_keys ?u) win = Inr P" "hm_inv P"
      by blast
    from False C P na show ?thesis
      by (auto simp: labels_process_game_def Let_def)
  qed
qed

subsection \<open>The contexts of the examples\<close>

lemma fresh_ctx_init: "labels_init any_alloc = Some (Some fresh_ctx)"
  by (simp add: labels_init_def hashmap_init_def init_cap_loop.simps any_alloc_def
      fresh_ctx_def)

lemma fresh_ctx_inv: "hm_inv (card_stats fresh_ctx)" "hm_inv (pair_stats fresh_ctx)"
  and fresh_ctx_empty: "hm_lookup (card_stats fresh_ctx) = Map.empty"
proof -
  have c: "(4096::nat) = 2 ^ 12" and p: "(65536::nat) = 2 ^ 16" by simp_all
  have "(4::nat) \<le> 12" "(4::nat) \<le> 16" by simp_all
  from hm_inv_fresh [OF this(1) c] hm_inv_fresh [OF this(2) p] hm_lookup_fresh [OF this(1) c]
  show "hm_inv (card_stats fresh_ctx)" "hm_inv (pair_stats fresh_ctx)"
    "hm_lookup (card_stats fresh_ctx) = Map.empty"
    by (simp_all add: fresh_ctx_def)
qed

lemma small_unat: "k < 102 \<Longrightarrow> unat (of_nat k :: u64) = k"
proof -
  assume "k < 102"
  then have "k < 2 ^ LENGTH(64)" by simp
  with refl show ?thesis by (rule of_nat_inverse)
qed

lemma ids_1_to_101_distinct: "distinct ids_1_to_101"
proof -
  have "inj_on (of_nat :: nat \<Rightarrow> u64) {1..<102}"
  proof (rule inj_onI)
    fix x y :: nat
    assume "x \<in> {1..<102}" "y \<in> {1..<102}" and eq: "(of_nat x :: u64) = of_nat y"
    then have "x < 102" "y < 102" by simp_all
    then have "unat (of_nat x :: u64) = x" "unat (of_nat y :: u64) = y"
      by (simp_all only: small_unat)
    with eq show "x = y" by metis
  qed
  then show ?thesis
    by (simp add: ids_1_to_101_def distinct_map del: upt_rec_numeral)
qed

lemma ids_1_to_101_last: "101 \<in> set ids_1_to_101"
proof -
  have "(101::nat) \<in> {1..<102}" by simp
  then have "(of_nat 101 :: u64) \<in> of_nat ` {1..<102}" by (rule imageI)
  then show ?thesis by (simp add: ids_1_to_101_def del: upt_rec_numeral)
qed

lemma ids_1_to_101_dropped: "101 \<notin> set (dedup_loop ids_1_to_101 [])"
proof -
  have "dedup_loop ids_1_to_101 [] = take 100 ids_1_to_101"
    using dedup_loop_take [of "[]" ids_1_to_101] ids_1_to_101_distinct
    by (simp add: MAX_GAME_CARDS_def)
  also have "\<dots> = map of_nat [1..<101]"
    unfolding ids_1_to_101_def take_map by (simp only: take_upt) simp
  finally have eq: "set (dedup_loop ids_1_to_101 []) = of_nat ` {1..<101}"
    by (simp del: upt_rec_numeral)
  show ?thesis
  proof
    assume "101 \<in> set (dedup_loop ids_1_to_101 [])"
    then obtain k where k: "k \<in> {1..<101::nat}" "(101 :: u64) = of_nat k"
      unfolding eq by auto
    from k(1) have "k < 102" by simp
    then have "unat (of_nat k :: u64) = k" by (rule small_unat)
    moreover have "unat (101 :: u64) = 101" by simp
    ultimately have "k = 101" using k(2) by metis
    with k(1) show False by simp
  qed
qed

lemma count_list_distinct:
  "distinct xs \<Longrightarrow> count_list xs k = (if k \<in> set xs then 1 else 0)"
  by (induction xs) auto

text \<open>
  Claim C4, as stated, fails for a game with more than \<^verbatim>\<open>MAX_GAME_CARDS\<close> distinct ids:
  in the context that \<^verbatim>\<open>labels_init\<close> makes, after a game with the ids 1, ..., 101 the
  id 101 has no entry in \<^verbatim>\<open>card_stats\<close>.
\<close>

theorem game_with_101_ids:
  "labels_init any_alloc = Some (Some fresh_ctx) \<and>
   distinct ids_1_to_101 \<and> 101 \<in> set ids_1_to_101 \<and> valid_key 101 \<and>
   (\<exists>ctx'. labels_process_game any_alloc fresh_ctx ids_1_to_101 True = Inr ctx' \<and>
      hm_lookup (card_stats ctx') 101 = None \<and>
      hashmap_get (card_stats ctx') 101 = None)"
proof -
  from labels_process_game_spec [OF fresh_ctx_inv, of any_alloc ids_1_to_101 True]
  obtain ctx' where c: "labels_process_game any_alloc fresh_ctx ids_1_to_101 True = Inr ctx'"
    "\<forall>k. hm_lookup (card_stats ctx') k =
       bump (if valid_key k then count_list (dedup_loop ids_1_to_101 []) k else 0) True
         (hm_lookup (card_stats fresh_ctx) k)"
    using any_alloc_all by auto
  have "count_list (dedup_loop ids_1_to_101 []) 101 = 0"
    using ids_1_to_101_dropped by (simp add: count_list_0_iff)
  with c(2) have "hm_lookup (card_stats ctx') 101 = None"
    by (simp add: fresh_ctx_empty)
  moreover from this have "hashmap_get (card_stats ctx') 101 = None"
    by (simp add: hm_lookup_None_get)
  moreover have "valid_key 101"
    by (simp add: valid_key_def HASH_EMPTY_KEY_def HASH_TOMBSTONE_def)
  ultimately show ?thesis
    using c(1) fresh_ctx_init ids_1_to_101_distinct ids_1_to_101_last by blast
qed

text \<open>
  Claim C4, amended. On a context with well-formed tables, for every list of ids (the
  empty list too) and every win flag, \<^verbatim>\<open>labels_process_game\<close> returns and adds 1 to
  \<^verbatim>\<open>total_games\<close>, and 1 to \<^verbatim>\<open>total_wins\<close> exactly for a win. If no allocation
  fails, the ids that count are the first \<^verbatim>\<open>MAX_GAME_CARDS\<close>, that is 100, distinct ids
  of the list, in the order of their first occurrences: \<^verbatim>\<open>card_stats\<close> is incremented
  once for each of them that is not a sentinel, however often the id occurs, and
  \<^verbatim>\<open>pair_stats\<close> is incremented once, under the key \<open>pair_key a b\<close>, for each unordered
  pair of distinct ids among them whose key is not a sentinel; nothing else changes in
  the two tables, so an id beyond the first 100 distinct ones is not counted. If the
  list holds at most 100 distinct ids, the ids that count are all the ids of the list.
\<close>

theorem labels_process_game_counts:
  assumes "hm_inv (card_stats ctx)" and "hm_inv (pair_stats ctx)"
  shows "MAX_GAME_CARDS = 100 \<and>
         (\<exists>ctx'. labels_process_game alloc ctx cs win = Inr ctx' \<and>
            total_games ctx' = total_games ctx + 1 \<and>
            total_wins ctx' = (if win then total_wins ctx + 1 else total_wins ctx) \<and>
            ((\<forall>c. alloc c) \<and> card (set cs) \<le> MAX_GAME_CARDS \<longrightarrow>
               (\<forall>k. hm_lookup (card_stats ctx') k =
                  bump (if k \<in> set cs \<and> valid_key k then 1 else 0) win
                    (hm_lookup (card_stats ctx) k)) \<and>
               (\<forall>p. hm_lookup (pair_stats ctx') p =
                  bump (if valid_key p then card (pairs_with_key (set cs) p) else 0) win
                    (hm_lookup (pair_stats ctx) p))) \<and>
            ((\<forall>c. alloc c) \<longrightarrow>
               (\<forall>k. hm_lookup (card_stats ctx') k =
                  bump (if k \<in> set (take MAX_GAME_CARDS (first_distinct cs)) \<and> valid_key k
                        then 1 else 0) win
                    (hm_lookup (card_stats ctx) k)) \<and>
               (\<forall>p. hm_lookup (pair_stats ctx') p =
                  bump (if valid_key p
                        then card (pairs_with_key
                                     (set (take MAX_GAME_CARDS (first_distinct cs))) p)
                        else 0) win
                    (hm_lookup (pair_stats ctx) p)))) \<and>
         (card (set cs) \<le> MAX_GAME_CARDS \<longrightarrow>
            set (take MAX_GAME_CARDS (first_distinct cs)) = set cs)"
proof -
  let ?u = "dedup_loop cs []"
  from labels_process_game_spec [OF assms, of alloc cs win]
  obtain ctx' where c: "labels_process_game alloc ctx cs win = Inr ctx'"
    "total_games ctx' = total_games ctx + 1"
    "total_wins ctx' = (if win then total_wins ctx + 1 else total_wins ctx)"
    "(\<forall>c. alloc c) \<longrightarrow>
              (\<forall>k. hm_lookup (card_stats ctx') k =
                 bump (if valid_key k then count_list ?u k else 0) win
                   (hm_lookup (card_stats ctx) k)) \<and>
              (\<forall>p. hm_lookup (pair_stats ctx') p =
                 bump (if valid_key p then count_list (pair_keys ?u) p else 0)
                   win (hm_lookup (pair_stats ctx) p))"
    by blast
  have d: "distinct ?u" by (rule dedup_loop_distinct) simp
  have counts: "(\<forall>k. hm_lookup (card_stats ctx') k =
                  bump (if k \<in> set cs \<and> valid_key k then 1 else 0) win
                    (hm_lookup (card_stats ctx) k)) \<and>
               (\<forall>p. hm_lookup (pair_stats ctx') p =
                  bump (if valid_key p then card (pairs_with_key (set cs) p) else 0) win
                    (hm_lookup (pair_stats ctx) p))"
    if al: "\<forall>c. alloc c" and few: "card (set cs) \<le> MAX_GAME_CARDS"
  proof -
    have s: "set ?u = set cs"
      using dedup_loop_set [of "[]" cs] few by simp
    have "(if valid_key k then count_list ?u k else 0) =
          (if k \<in> set cs \<and> valid_key k then 1 else 0)" for k
      using count_list_distinct [OF d, of k] s by simp
    moreover have "count_list (pair_keys ?u) p = card (pairs_with_key (set cs) p)" for p
      using count_list_pair_keys [OF d, of p] s by simp
    ultimately show ?thesis using c(4) al by simp
  qed
  have general: "(\<forall>k. hm_lookup (card_stats ctx') k =
                  bump (if k \<in> set (take MAX_GAME_CARDS (first_distinct cs)) \<and> valid_key k
                        then 1 else 0) win
                    (hm_lookup (card_stats ctx) k)) \<and>
               (\<forall>p. hm_lookup (pair_stats ctx') p =
                  bump (if valid_key p
                        then card (pairs_with_key
                                     (set (take MAX_GAME_CARDS (first_distinct cs))) p)
                        else 0) win
                    (hm_lookup (pair_stats ctx) p))"
    if al: "\<forall>c. alloc c"
  proof -
    have u: "?u = take MAX_GAME_CARDS (first_distinct cs)" by (rule dedup_loop_first)
    have "(if valid_key k then count_list ?u k else 0) =
          (if k \<in> set (take MAX_GAME_CARDS (first_distinct cs)) \<and> valid_key k
           then 1 else 0)" for k
      using count_list_distinct [OF d, of k] u by simp
    moreover have "count_list (pair_keys ?u) p =
          card (pairs_with_key (set (take MAX_GAME_CARDS (first_distinct cs))) p)" for p
      using count_list_pair_keys [OF d, of p] u by simp
    ultimately show ?thesis using c(4) al by simp
  qed
  have all: "set (take MAX_GAME_CARDS (first_distinct cs)) = set cs"
    if "card (set cs) \<le> MAX_GAME_CARDS"
    using first_distinct_few [OF that] by (simp add: first_distinct_set)
  have "MAX_GAME_CARDS = 100" by (simp add: MAX_GAME_CARDS_def)
  with c(1,2,3) counts general all show ?thesis by blast
qed

lemma small_ctx_inv: "hm_inv (card_stats small_ctx)" "hm_inv (pair_stats small_ctx)"
  and small_ctx_empty: "hm_lookup (card_stats small_ctx) = Map.empty"
    "hm_lookup (pair_stats small_ctx) = Map.empty"
  by (simp_all add: small_ctx_def table16_inv table16_empty)

lemma pairs_of_1_2: "pairs_with_key {1, 2} (pair_key 1 2) = {(1, 2)}"
  by (auto simp: pairs_with_key_def)

theorem labels_process_game_counts_witness:
  "hm_inv (card_stats small_ctx) \<and> hm_inv (pair_stats small_ctx) \<and>
   (\<forall>c. any_alloc c) \<and> card (set [1, 2, 1 :: u64]) \<le> MAX_GAME_CARDS \<and>
   (\<exists>ctx'. labels_process_game any_alloc small_ctx [1, 2, 1] True = Inr ctx' \<and>
      total_games ctx' = 1 \<and> total_wins ctx' = 1 \<and>
      hm_lookup (card_stats ctx') 1 = Some (1, 1) \<and>
      hm_lookup (card_stats ctx') 2 = Some (1, 1) \<and>
      hm_lookup (card_stats ctx') 3 = None \<and>
      hm_lookup (pair_stats ctx') (pair_key 1 2) = Some (1, 1)) \<and>
   set (take MAX_GAME_CARDS (first_distinct [1, 2, 1 :: u64])) = {1, 2}"
proof -
  have few: "card (set [1, 2, 1 :: u64]) \<le> MAX_GAME_CARDS"
  proof -
    have "card (set [1, 2, 1 :: u64]) \<le> length [1, 2, 1 :: u64]" by (rule card_length)
    then show ?thesis by (simp add: MAX_GAME_CARDS_def)
  qed
  have vk: "valid_key 1" "valid_key 2" "valid_key 3" "valid_key (pair_key 1 2)"
    by (simp_all add: valid_key_def HASH_EMPTY_KEY_def HASH_TOMBSTONE_def pair_key_def)
  from labels_process_game_counts [OF small_ctx_inv, of any_alloc "[1, 2, 1]" True]
    few any_alloc_all
  obtain ctx' where c: "labels_process_game any_alloc small_ctx [1, 2, 1] True = Inr ctx'"
    "total_games ctx' = total_games small_ctx + 1"
    "total_wins ctx' = total_wins small_ctx + 1"
    "\<forall>k. hm_lookup (card_stats ctx') k =
           bump (if k \<in> set [1, 2, 1] \<and> valid_key k then 1 else 0) True
              (hm_lookup (card_stats small_ctx) k)"
    "\<forall>p. hm_lookup (pair_stats ctx') p =
           bump (if valid_key p then card (pairs_with_key (set [1, 2, 1]) p) else 0) True
              (hm_lookup (pair_stats small_ctx) p)"
    "set (take MAX_GAME_CARDS (first_distinct [1, 2, 1 :: u64])) = set [1, 2, 1 :: u64]"
    by auto
  have s12: "set [1, 2, 1 :: u64] = {1, 2}" by auto
  with c(5) vk(4) pairs_of_1_2
  have "hm_lookup (pair_stats ctx') (pair_key 1 2) = Some (1, 1)"
    by (simp add: small_ctx_empty bump_def)
  moreover from c(4) vk have "hm_lookup (card_stats ctx') 1 = Some (1, 1)"
    "hm_lookup (card_stats ctx') 2 = Some (1, 1)" "hm_lookup (card_stats ctx') 3 = None"
    by (simp_all add: small_ctx_empty bump_def)
  moreover from c(2,3) have "total_games ctx' = 1" "total_wins ctx' = 1"
    by (simp_all add: small_ctx_def)
  moreover from c(6) s12
  have "set (take MAX_GAME_CARDS (first_distinct [1, 2, 1 :: u64])) = {1, 2}" by simp
  ultimately show ?thesis using c(1) few small_ctx_inv any_alloc_all by blast
qed

section \<open>The model file: what is saved is what is loaded\<close>

text \<open>
  The bytes of an object read back give the object; so do the floats of an embedding, the
  cards, and, when every write has succeeded, the whole file.
\<close>

lemma length_le_bytes: "length (le_bytes n x) = n"
  by (induction n arbitrary: x) simp_all

lemma le_word_le_bytes: "(le_word (le_bytes n x) :: 'a::len word) = take_bit (8 * n) x"
proof (induction n arbitrary: x)
  case 0
  show ?case by simp
next
  case (Suc n)
  show ?case
    apply (simp add: Suc)
    apply (rule bit_word_eqI)
    apply (auto simp add: bit_simps)
    done
qed

lemma fread_word_le_bytes:
  fixes x :: "'a::len word"
  assumes "LENGTH('a) \<le> 8 * n"
  shows "fread_word n (le_bytes n x @ rest) = Some (x, rest)"
proof -
  have "take_bit (8 * n) x = x"
    using assms by (simp add: take_bit_word_eq_self)
  then show ?thesis
    by (simp add: fread_word_def length_le_bytes le_word_le_bytes)
qed

lemma fread_floats_bytes:
  "fread_floats (length xs) (concat (map (le_bytes 4) xs) @ rest) = Some (xs, rest)"
  by (induction xs) (simp_all add: fread_word_le_bytes)

lemma loaded_card_eq:
  "loaded_card dm c = \<lparr>card_id = card_id c, bias = bias c,
      embedding = take dm (embedding c) @ replicate (EMBED_DIM - dm) 0\<rparr>"
  by (cases c) (simp add: loaded_card_def)

lemma read_cards_bytes:
  assumes "unat dmw = dm" and "list_all (\<lambda>c. dm \<le> length (embedding c)) cs"
  shows "read_cards dm (length cs) (concat (map (card_bytes dmw) cs) @ rest)
         = Some (map (loaded_card dm) cs, rest)"
  using assms(2)
proof (induction cs)
  case Nil
  show ?case by simp
next
  case (Cons c cs)
  have len: "length (take dm (embedding c)) = dm"
    using Cons.prems by simp
  have fl: "fread_floats dm (concat (map (le_bytes 4) (take dm (embedding c))) @ r)
            = Some (take dm (embedding c), r)" for r
    using fread_floats_bytes [of "take dm (embedding c)" r] len by simp
  have ih: "read_cards dm (length cs) (concat (map (card_bytes dmw) cs) @ rest)
         = Some (map (loaded_card dm) cs, rest)"
    using Cons by simp
  have cb: "concat (map (card_bytes dmw) (c # cs)) @ rest
        = le_bytes 8 (card_id c) @ le_bytes 4 (bias c) @
          concat (map (le_bytes 4) (take dm (embedding c))) @
          concat (map (card_bytes dmw) cs) @ rest"
    by (simp add: card_bytes_def assms(1))
  show ?case
    unfolding cb
    by (simp add: fread_word_le_bytes fl ih loaded_card_eq)
qed

lemma word_of_small:
  assumes "0 \<le> i" and "i \<le> 16"
  shows "unat (word_of_int i :: u32) = nat i" and "sint (word_of_int i :: u32) = i"
proof -
  show "unat (word_of_int i :: u32) = nat i"
    using assms by (simp add: unat_eq_nat_uint uint_word_of_int take_bit_int_eq_self)
  show "sint (word_of_int i :: u32) = i"
    using assms by (simp add: sint_sbintrunc' signed_take_bit_int_eq_self)
qed

lemma save_cards_written:
  assumes "\<forall>j bs. i \<le> j \<and> j < i + 3 * length cs \<longrightarrow> wr j bs = bs"
  shows "save_cards wr dm i cs = concat (map (card_bytes dm) cs)"
  using assms
proof (induction cs arbitrary: i)
  case Nil
  show ?case by simp
next
  case (Cons c cs)
  have w: "wr i bs = bs" "wr (Suc i) bs = bs" "wr (Suc (Suc i)) bs = bs" for bs
    using Cons.prems by simp_all
  have cb: "card_bytes dm c = le_bytes 8 (card_id c) @ le_bytes 4 (bias c) @
              concat (map (le_bytes 4) (take (unat dm) (embedding c)))"
    by (simp add: card_bytes_def)
  have "\<forall>j bs. i + 3 \<le> j \<and> j < (i + 3) + 3 * length cs \<longrightarrow> wr j bs = bs"
    using Cons.prems by simp
  then have "save_cards wr dm (i + 3) cs = concat (map (card_bytes dm) cs)"
    by (rule Cons.IH)
  then show ?case by (simp add: w cb)
qed

lemma model_save_written:
  assumes "writes_ok wr (5 + 3 * length (cards m))"
  shows "model_save True wr m
         = Some (le_bytes 4 MODEL_MAGIC @ le_bytes 4 MODEL_VERSION @
                 le_bytes 4 (word_of_int (embed_dim m) :: u32) @
                 le_bytes 4 (of_nat (length (cards m)) :: u32) @
                 concat (map (card_bytes (word_of_int (embed_dim m))) (cards m)) @
                 le_bytes 4 (global_bias m))"
proof -
  have "\<forall>j bs. 4 \<le> j \<and> j < 4 + 3 * length (cards m) \<longrightarrow> wr j bs = bs"
    using assms by (simp add: writes_ok_def)
  then have "save_cards wr (word_of_int (embed_dim m)) 4 (cards m)
             = concat (map (card_bytes (word_of_int (embed_dim m))) (cards m))"
    by (rule save_cards_written)
  moreover have "wr 0 bs = bs" "wr 1 bs = bs" "wr 2 bs = bs" "wr 3 bs = bs"
    "wr (4 + 3 * length (cards m)) bs = bs" for bs
    using assms by (simp_all add: writes_ok_def)
  ultimately show ?thesis by (simp add: model_save_def Let_def)
qed

lemma model_load_save_eq:
  assumes wf: "wf_model m" and n: "length (cards m) < card_limit"
    and wr: "writes_ok wr (5 + 3 * length (cards m))"
  shows "model_load alloc (model_save True wr m)
         = (if alloc (max (length (cards m)) 1024) then Inr (loaded_model m) else Inl NoMemory)"
proof -
  define dmw :: u32 where "dmw = word_of_int (embed_dim m)"
  define nw :: u32 where "nw = of_nat (length (cards m))"
  define body where "body = concat (map (card_bytes dmw) (cards m)) @ le_bytes 4 (global_bias m)"
  have d: "unat dmw = nat (embed_dim m)" "sint dmw = embed_dim m"
    using wf word_of_small [of "embed_dim m"]
    unfolding wf_model_def EMBED_DIM_def dmw_def by simp_all
  have d16: "nat (embed_dim m) \<le> 16"
    using wf unfolding wf_model_def EMBED_DIM_def by linarith
  have nn: "unat nw = length (cards m)"
    using n unfolding nw_def card_limit_def by (simp add: unat_of_nat)
  have emb: "list_all (\<lambda>c. nat (embed_dim m) \<le> length (embedding c)) (cards m)"
    using wf d16 unfolding wf_model_def EMBED_DIM_def by (simp add: list_all_iff)
  have rc: "read_cards (nat (embed_dim m)) (length (cards m)) body
            = Some (map (loaded_card (nat (embed_dim m))) (cards m), le_bytes 4 (global_bias m))"
    unfolding body_def using read_cards_bytes [OF d(1) emb] by simp
  have gb: "fread_word 4 (le_bytes 4 (global_bias m)) = Some (global_bias m, [])"
    using fread_word_le_bytes [of 4 "global_bias m" "[]"] by simp
  have sv: "model_save True wr m
            = Some (le_bytes 4 MODEL_MAGIC @ le_bytes 4 MODEL_VERSION @
                    le_bytes 4 dmw @ le_bytes 4 nw @ body)"
    using model_save_written [OF wr] by (simp add: dmw_def nw_def body_def)
  show ?thesis
    unfolding sv model_load_def
    using d16
    by (auto simp add: fread_word_le_bytes d nn EMBED_DIM_def rc gb loaded_model_def Let_def
          max_def)
qed

lemma find_loaded_card:
  "find (\<lambda>c. card_id c = k) (map (loaded_card d) cs)
   = map_option (loaded_card d) (find (\<lambda>c. card_id c = k) cs)"
  by (induction cs) (simp_all add: loaded_card_def)

lemma model_find_card_loaded:
  "model_find_card (loaded_model m) k
   = map_option (loaded_card (nat (embed_dim m))) (model_find_card m k)"
  by (simp add: model_find_card_def loaded_model_def find_loaded_card)

lemma model_find_card_mem: "model_find_card m k = Some c \<Longrightarrow> c \<in> set (cards m)"
  by (auto simp add: model_find_card_def find_Some_iff)

lemma loaded_card_nth:
  assumes "i < d" and "d \<le> length (embedding c)"
  shows "embedding (loaded_card d c) ! i = embedding c ! i"
  using assms by (simp add: loaded_card_def nth_append)

lemma loaded_card_bias: "bias (loaded_card d c) = bias c"
  by (simp add: loaded_card_def)

lemma loaded_model_fields:
  "embed_dim (loaded_model m) = embed_dim m" "global_bias (loaded_model m) = global_bias m"
  by (simp_all add: loaded_model_def)

lemma model_predict_loaded:
  assumes wf: "wf_model m"
  shows "model_predict fadd fmul (loaded_model m) x y = model_predict fadd fmul m x y"
proof (cases "model_find_card m x")
  case None
  then show ?thesis
    by (simp add: model_predict_def model_find_card_loaded loaded_model_fields)
next
  case (Some ma)
  note a = this
  show ?thesis
  proof (cases "model_find_card m y")
    case None
    then show ?thesis
      using a by (simp add: model_predict_def model_find_card_loaded loaded_model_fields)
  next
    case (Some mb)
    define d where "d = nat (embed_dim m)"
    have d16: "d \<le> 16"
      using wf unfolding wf_model_def EMBED_DIM_def d_def by linarith
    have "length (embedding ma) = 16" "length (embedding mb) = 16"
      using wf model_find_card_mem [OF a] model_find_card_mem [OF Some]
      unfolding wf_model_def EMBED_DIM_def by (simp_all add: list_all_iff)
    then have len: "d \<le> length (embedding ma)" "d \<le> length (embedding mb)"
      using d16 by simp_all
    have dot: "fold (\<lambda>i s. fadd s (fmul (embedding (loaded_card d ma) ! i)
                                        (embedding (loaded_card d mb) ! i))) [0..<d] 0
             = fold (\<lambda>i s. fadd s (fmul (embedding ma ! i) (embedding mb ! i))) [0..<d] 0"
      by (rule fold_cong) (simp_all add: loaded_card_nth len)
    show ?thesis
      unfolding model_predict_def model_find_card_loaded a Some loaded_model_fields
      using dot by (simp add: d_def loaded_card_bias Let_def)
  qed
qed

subsection \<open>The examples\<close>

lemma fread_word_4: "fread_word 4 (a # b # c # d # rest) = Some (le_word [a, b, c, d], rest)"
  by (simp add: fread_word_def)

lemma le_bytes_numeral:
  "le_bytes (numeral k) x = ucast x # le_bytes (pred_numeral k) (drop_bit 8 x)"
  by (simp add: numeral_eq_Suc)

lemma le_bytes_8_one: "le_bytes 8 (1 :: u64) = [1, 0, 0, 0, 0, 0, 0, 0]"
  by (simp add: le_bytes_numeral)

lemma card_limit_word: "(of_nat card_limit :: u32) = 0"
  by (simp add: card_limit_def)

lemma card_limit_Suc: "card_limit = Suc (card_limit - 1)"
  by (simp add: card_limit_def)

lemma wf_two_card_model: "wf_model two_card_model"
  by (simp add: wf_model_def two_card_model_def zero_card_def EMBED_DIM_def)

lemma wf_big_model: "wf_model big_model"
  by (simp add: wf_model_def big_model_def zero_card_def EMBED_DIM_def list_all_iff)

lemma all_written_ok: "writes_ok all_written k"
  by (simp add: writes_ok_def all_written_def)

lemma big_model_save:
  "model_save True all_written big_model
   = Some (le_bytes 4 MODEL_MAGIC @ le_bytes 4 MODEL_VERSION @ le_bytes 4 (16 :: u32) @
           le_bytes 4 (0 :: u32) @
           1 # 0 # 0 # 0 # [0, 0, 0, 0] @ le_bytes 4 (bias (zero_card 1)) @
           concat (map (le_bytes 4) (take (unat (16 :: u32)) (embedding (zero_card 1)))) @
           concat (map (card_bytes 16) (replicate (card_limit - 1) (zero_card 1))) @
           le_bytes 4 (0 :: u32))"
proof -
  have "cards big_model = zero_card 1 # replicate (card_limit - 1) (zero_card 1)"
    unfolding big_model_def using card_limit_Suc
    by (metis SynergyModel.select_convs(1) replicate_Suc)
  moreover have "card_id (zero_card 1) = 1"
    by (simp add: zero_card_def)
  moreover have "length (cards big_model) = card_limit" "embed_dim big_model = 16"
     "global_bias big_model = 0"
    by (simp_all add: big_model_def)
  ultimately show ?thesis
    unfolding model_save_written [OF all_written_ok]
    by (simp add: card_limit_word card_bytes_def le_bytes_8_one
          del: replicate_Suc le_bytes.simps)
qed

lemma big_model_load:
  "model_load any_alloc (model_save True all_written big_model)
   = Inr \<lparr>cards = [], model_capacity = 1024, global_bias = 1, embed_dim = 16\<rparr>"
  unfolding big_model_save model_load_def
  by (simp add: fread_word_le_bytes fread_word_4 EMBED_DIM_def any_alloc_def
      del: le_bytes.simps)

lemma disk_full_save:
  "model_save True disk_full two_card_model
   = Some (le_bytes 4 MODEL_MAGIC @ le_bytes 4 MODEL_VERSION @ le_bytes 4 (16 :: u32) @
           le_bytes 4 (2 :: u32) @ [])"
  by (simp add: model_save_def two_card_model_def disk_full_def del: le_bytes.simps)

lemma fread_word_le_bytes_end:
  fixes x :: "'a::len word"
  assumes "LENGTH('a) \<le> 8 * n"
  shows "fread_word n (le_bytes n x) = Some (x, [])"
  using fread_word_le_bytes [OF assms, of x "[]"] by simp

lemma fread_word_nil: "0 < n \<Longrightarrow> fread_word n [] = None"
  by (simp add: fread_word_def)

lemma read_cards_nil: "read_cards dm (Suc n) [] = None"
  by (simp add: fread_word_nil)

lemma disk_full_load:
  "model_load any_alloc (model_save True disk_full two_card_model) = Inl ShortRead"
proof -
  have "unat (2 :: u32) = Suc 1" by simp
  then have "read_cards (unat (16 :: u32)) (unat (2 :: u32)) [] = None"
    by (simp only: read_cards_nil)
  then show ?thesis
    unfolding disk_full_save model_load_def
    by (simp add: fread_word_le_bytes fread_word_le_bytes_end EMBED_DIM_def any_alloc_def
        del: le_bytes.simps read_cards.simps)
qed

lemma big_model_predict: "model_predict sample_fadd sample_fmul big_model 1 1 = 0"
proof -
  have "cards big_model = zero_card 1 # replicate (card_limit - 1) (zero_card 1)"
    unfolding big_model_def using card_limit_Suc
    by (metis SynergyModel.select_convs(1) replicate_Suc)
  then have f: "model_find_card big_model 1 = Some (zero_card 1)"
    by (simp add: model_find_card_def zero_card_def)
  have e: "embed_dim big_model = 16" "global_bias big_model = 0"
    by (simp_all add: big_model_def)
  have dot: "n \<le> 16 \<Longrightarrow> fold (\<lambda>i d. sample_fadd d (sample_fmul (embedding (zero_card 1) ! i)
                 (embedding (zero_card 1) ! i))) [0..<n] 0 = 0" for n
    by (induction n) (simp_all add: sample_fadd_def sample_fmul_def zero_card_def)
  have b: "bias (zero_card 1) = 0"
    by (simp add: zero_card_def)
  show ?thesis
    unfolding model_predict_def f e
    by (simp add: dot b del: upt_rec_numeral) (simp add: sample_fadd_def)
qed

subsection \<open>Claim C2: the round trip of a model through its file\<close>

text \<open>
  Claim C2, as stated, fails in three ways, here in this order. When \<^verbatim>\<open>model_load\<close>
  cannot allocate its card array it returns \<^verbatim>\<open>-1\<close>: no model is loaded from the file of
  the model of two cards. When a write fails, \<^verbatim>\<open>model_save\<close> does not notice and returns
  0: with the header written and nothing after it, \<^verbatim>\<open>model_load\<close> finds the file too
  short for the two cards that the header announces and returns \<^verbatim>\<open>-1\<close>. And the file
  holds the number of cards in 32 bits: the model of \<open>2 ^ 32\<close> cards, each with id 1, all
  floats \<^verbatim>\<open>0.0f\<close>, is saved with the count 0, so \<^verbatim>\<open>model_load\<close> reads no card and takes
  as global bias the next four bytes of the file, the low half of the first card id, the
  bits \<open>1\<close>; the loaded model predicts these bits for the pair \<open>(1, 1)\<close>, which it does
  not hold, and the original model predicts \<^verbatim>\<open>0.0f\<close>, the sum of zeros.
\<close>

theorem model_round_trip_fails:
  "model_load no_alloc (model_save True all_written two_card_model) = Inl NoMemory \<and>
   model_load any_alloc (model_save True disk_full two_card_model) = Inl ShortRead \<and>
   model_load any_alloc (model_save True all_written big_model)
     = Inr \<lparr>cards = [], model_capacity = 1024, global_bias = 1, embed_dim = 16\<rparr> \<and>
   model_predict sample_fadd sample_fmul
     \<lparr>cards = [], model_capacity = 1024, global_bias = 1, embed_dim = 16\<rparr> 1 1 = 1 \<and>
   model_predict sample_fadd sample_fmul big_model 1 1 = 0"
proof -
  have "length (cards two_card_model) < card_limit"
    by (simp add: two_card_model_def card_limit_def)
  then have "model_load no_alloc (model_save True all_written two_card_model) = Inl NoMemory"
    using model_load_save_eq [OF wf_two_card_model _ all_written_ok, where alloc = no_alloc]
    by (simp add: no_alloc_def)
  moreover have "model_predict sample_fadd sample_fmul
     \<lparr>cards = [], model_capacity = 1024, global_bias = 1, embed_dim = 16\<rparr> 1 1 = 1"
    by (simp add: model_predict_def model_find_card_def)
  ultimately show ?thesis
    using big_model_load big_model_predict disk_full_load by simp
qed

text \<open>
  Claim C2, amended. For a model with \<^verbatim>\<open>embed_dim\<close> between 0 and \<^verbatim>\<open>EMBED_DIM\<close> and
  fewer than \<open>2 ^ 32\<close> cards, when the file can be created, every write of
  \<^verbatim>\<open>model_save\<close> puts all its bytes into the file (the header, three writes for each
  card, the global bias), the file can be opened again and \<^verbatim>\<open>model_load\<close> can allocate
  its card array: \<^verbatim>\<open>model_load\<close> of the file that \<^verbatim>\<open>model_save\<close> has written succeeds,
  with the model \<open>loaded_model m\<close>, and on it \<^verbatim>\<open>model_predict\<close> returns for every pair of
  card ids, present in the model or not, the same bits as on the original model,
  whatever the addition and the multiplication of floats are.
\<close>

theorem model_round_trip:
  assumes "wf_model m" and "length (cards m) < card_limit"
    and "writes_ok wr (5 + 3 * length (cards m))"
    and "alloc (max (length (cards m)) 1024)"
  shows "\<exists>bytes. model_save True wr m = Some bytes \<and>
           model_load alloc (Some bytes) = Inr (loaded_model m) \<and>
           (\<forall>x y. model_predict fadd fmul (loaded_model m) x y
                  = model_predict fadd fmul m x y)"
proof -
  obtain bytes where f: "model_save True wr m = Some bytes"
    by (simp add: model_save_def Let_def)
  have "model_load alloc (model_save True wr m) = Inr (loaded_model m)"
    using model_load_save_eq [OF assms(1,2,3), of alloc] assms(4) by simp
  with f show ?thesis
    using model_predict_loaded [OF assms(1)] by simp
qed

theorem model_round_trip_witness:
  "wf_model two_card_model \<and> length (cards two_card_model) < card_limit \<and>
   writes_ok all_written (5 + 3 * length (cards two_card_model)) \<and>
   any_alloc (max (length (cards two_card_model)) 1024) \<and>
   (\<exists>bytes. model_save True all_written two_card_model = Some bytes \<and>
      model_load any_alloc (Some bytes) = Inr (loaded_model two_card_model) \<and>
      (\<forall>x y. model_predict sample_fadd sample_fmul (loaded_model two_card_model) x y
             = model_predict sample_fadd sample_fmul two_card_model x y))"
proof -
  have h: "wf_model two_card_model" "length (cards two_card_model) < card_limit"
    "writes_ok all_written (5 + 3 * length (cards two_card_model))"
    "any_alloc (max (length (cards two_card_model)) 1024)"
    by (rule wf_two_card_model)
       (simp_all add: two_card_model_def card_limit_def any_alloc_def all_written_ok)
  show ?thesis
    using model_round_trip [where m = two_card_model and alloc = any_alloc
        and wr = all_written and fadd = sample_fadd and fmul = sample_fmul] h
    by simp
qed

end
